theory Spec2Isabelle
  imports Main "HOL-Library.AList" "HOL-Library.Extended_Nat"
begin

section \<open>Graph model\<close>

text \<open>
  The elements of a flow are plain JavaScript objects. A node is
  \<^verbatim>\<open>{ id, type, position, data: { ...courseData, nodeStatus, nodeConnected } }\<close>,
  an edge is \<^verbatim>\<open>{ id, source, target, className, label }\<close>, to which
  \<^verbatim>\<open>CONCURRENT_LABEL\<close> may add \<^verbatim>\<open>labelBgPadding\<close> and
  \<^verbatim>\<open>labelBgBorderRadius\<close>. The library predicates \<^verbatim>\<open>isNode\<close> and
  \<^verbatim>\<open>isEdge\<close> tell them apart by the presence of \<^verbatim>\<open>source\<close> and
  \<^verbatim>\<open>target\<close>; here they are the two constructors of \<open>element\<close>.

  The six status names of \<^verbatim>\<open>COURSE_STATUSES\<close> are a datatype; \<^verbatim>\<open>className\<close>
  and \<^verbatim>\<open>nodeStatus\<close> range over it. A value that JavaScript would leave
  \<^verbatim>\<open>undefined\<close> is an \<open>option\<close>.
\<close>

datatype status =
  completed | enrolled | ready | under_one_away | one_away | over_one_away

datatype nodeType = course | gate_and | gate_or

record courseData =
  course_id :: string
  prerequisite :: string

record node =
  node_id :: string
  node_type :: nodeType
  position :: "int \<times> int"
  payload :: "courseData option"
  nodeStatus :: status
  nodeConnected :: bool

record edge =
  edge_id :: string
  source :: string
  target :: string
  className :: status
  label :: "string option"
  labelBgPadding :: "int list option"
  labelBgBorderRadius :: "int option"

datatype element = Node node | Edge edge

fun isNode :: "element \<Rightarrow> bool" where
  "isNode (Node n) = True"
| "isNode (Edge e) = False"

fun isEdge :: "element \<Rightarrow> bool" where
  "isEdge (Node n) = False"
| "isEdge (Edge e) = True"

fun elem_id :: "element \<Rightarrow> string" where
  "elem_id (Node n) = node_id n"
| "elem_id (Edge e) = edge_id e"

text \<open>
  A JavaScript \<^verbatim>\<open>Map\<close> is an association list in insertion order with one
  entry per key: \<^verbatim>\<open>get\<close> is \<open>map_of\<close>, \<^verbatim>\<open>set\<close> is \<open>AList.update\<close>
  (it replaces the value of a key in place and appends a new key at the end), and
  \<^verbatim>\<open>size\<close> counts the keys.
\<close>

type_synonym ('k, 'v) jsmap = "('k \<times> 'v) list"

definition map_size :: "('k, 'v) jsmap \<Rightarrow> nat" where
  "map_size m = length (remdups (map fst m))"

record nodeMeta =
  depth :: nat
  incomingNodes :: "string list"
  incomingEdges :: "string list"
  outgoingEdges :: "string list"
  outgoingNodes :: "string list"
  connectedEdges :: "string list"
  connectedNodes :: "string list"

type_synonym nodeDataMap = "(string, nodeMeta) jsmap"
type_synonym elemIndexMap = "(string, nat) jsmap"

text \<open>
  What can go wrong. \<open>TypeError\<close> is the exception JavaScript throws when a
  property of \<^verbatim>\<open>undefined\<close> is read or written. \<open>OutOfModel\<close> marks the
  places where JavaScript goes on without an exception but leaves the data model:
  a status that would be stored as \<^verbatim>\<open>undefined\<close>, a write past the end of
  the array or under the key \<^verbatim>\<open>undefined\<close>, a node that would gain a
  \<^verbatim>\<open>className\<close>.
\<close>

datatype error = TypeError | OutOfModel

section \<open>Identifiers and element constructors\<close>

definition ZERO_POSITION :: "int \<times> int" where
  "ZERO_POSITION = (0, 0)"

definition newCourseNode :: "courseData \<Rightarrow> node" where
  "newCourseNode c =
     \<lparr> node_id = course_id c, node_type = course, position = ZERO_POSITION,
       payload = Some c, nodeStatus = over_one_away, nodeConnected = False \<rparr>"

text \<open>
  \<^verbatim>\<open>newConditionalNode(type)\<close> builds the id from the upper-cased type name and a
  fresh \<^verbatim>\<open>nanoid()\<close>; the generated suffix is a parameter here.
\<close>

fun type_upper :: "nodeType \<Rightarrow> string" where
  "type_upper course = ''COURSE''"
| "type_upper gate_and = ''AND''"
| "type_upper gate_or = ''OR''"

definition newConditionalNode :: "nodeType \<Rightarrow> string \<Rightarrow> node" where
  "newConditionalNode ty nano =
     \<lparr> node_id = type_upper ty @ ''-'' @ nano, node_type = ty, position = ZERO_POSITION,
       payload = None, nodeStatus = completed, nodeConnected = False \<rparr>"

definition edgeArrowId :: "string \<Rightarrow> string \<Rightarrow> string" where
  "edgeArrowId src tgt = src @ '' -> '' @ tgt"

definition newEdge :: "string \<Rightarrow> string \<Rightarrow> string option \<Rightarrow> edge" where
  "newEdge src tgt ident =
     \<lparr> edge_id = (case ident of None \<Rightarrow> edgeArrowId src tgt | Some i \<Rightarrow> i),
       source = src, target = tgt, className = over_one_away, label = None,
       labelBgPadding = None, labelBgBorderRadius = None \<rparr>"

definition CONCURRENT_LABEL :: "edge \<Rightarrow> edge" where
  "CONCURRENT_LABEL e =
     e\<lparr> label := Some ''CC'', labelBgPadding := Some [2, 2], labelBgBorderRadius := Some 4 \<rparr>"

section \<open>Status propagation\<close>

definition COURSE_STATUSES :: "status list" where
  "COURSE_STATUSES = [completed, enrolled, ready, under_one_away, one_away, over_one_away]"

text \<open>\<^verbatim>\<open>COURSE_STATUS_CODES\<close> maps each status to its position in the list.\<close>

definition COURSE_STATUS_CODES :: "status \<Rightarrow> nat" where
  "COURSE_STATUS_CODES s = length (takeWhile (\<lambda>x. x \<noteq> s) COURSE_STATUSES)"

text \<open>
  \<^verbatim>\<open>elements[elemIndexes.get(id)]\<close>: \<^verbatim>\<open>undefined\<close> when the id has no index
  or the index is past the end.
\<close>

definition elem_at :: "element list \<Rightarrow> elemIndexMap \<Rightarrow> string \<Rightarrow> element option" where
  "elem_at elements elemIndexes k =
     (case map_of elemIndexes k of
        None \<Rightarrow> None
      | Some i \<Rightarrow> if i < length elements then Some (elements ! i) else None)"

text \<open>
  \<^verbatim>\<open>getEdgeStatus\<close> reads \<^verbatim>\<open>edge.className\<close>: a \<^verbatim>\<open>TypeError\<close> on
  \<^verbatim>\<open>undefined\<close>; on a node the class is \<^verbatim>\<open>undefined\<close> and so is the code
  (\<open>None\<close>).
\<close>

fun getEdgeStatus :: "element option \<Rightarrow> error + nat option" where
  "getEdgeStatus None = Inl TypeError"
| "getEdgeStatus (Some (Node n)) = Inr None"
| "getEdgeStatus (Some (Edge e)) =
     (let edgeStatusCode = COURSE_STATUS_CODES (className e)
      in Inr (Some (if edgeStatusCode = COURSE_STATUS_CODES enrolled \<and> label e = Some ''CC''
                    then COURSE_STATUS_CODES completed else edgeStatusCode)))"

text \<open>\<^verbatim>\<open>xs.map(f)\<close> for an \<open>f\<close> that may throw: the first exception ends the map.\<close>

fun map_err :: "('a \<Rightarrow> error + 'b) \<Rightarrow> 'a list \<Rightarrow> error + 'b list" where
  "map_err f [] = Inr []"
| "map_err f (x # xs) =
     (case f x of
        Inl e \<Rightarrow> Inl e
      | Inr y \<Rightarrow> (case map_err f xs of Inl e \<Rightarrow> Inl e | Inr ys \<Rightarrow> Inr (y # ys)))"

text \<open>
  JavaScript numbers as far as the engine meets them: a code, the two infinities that
  \<^verbatim>\<open>Math.max()\<close> and \<^verbatim>\<open>Math.min()\<close> return without arguments, and
  \<^verbatim>\<open>NaN\<close>, which both return as soon as one argument is \<^verbatim>\<open>undefined\<close>.
\<close>

datatype jsnum = Num nat | NegInfinity | PosInfinity | NaN

definition Math_max :: "nat option list \<Rightarrow> jsnum" where
  "Math_max xs =
     (if xs = [] then NegInfinity
      else if None \<in> set xs then NaN
      else Num (fold max (map the xs) 0))"

definition Math_min :: "nat option list \<Rightarrow> jsnum" where
  "Math_min xs =
     (if xs = [] then PosInfinity
      else if None \<in> set xs then NaN
      else Num (fold min (map the (tl xs)) (the (hd xs))))"

text \<open>\<^verbatim>\<open>COURSE_STATUSES[newStatusCode]\<close>: \<^verbatim>\<open>undefined\<close> unless the code is an index.\<close>

fun status_at :: "jsnum \<Rightarrow> status option" where
  "status_at (Num c) = (if c < length COURSE_STATUSES then Some (COURSE_STATUSES ! c) else None)"
| "status_at x = None"

text \<open>The \<^verbatim>\<open>switch\<close> of \<^verbatim>\<open>updateNodeStatus\<close>: the new status, \<open>None\<close> for \<^verbatim>\<open>undefined\<close>.\<close>

fun newStatusOf :: "nodeType \<Rightarrow> status \<Rightarrow> nat option list \<Rightarrow> status option" where
  "newStatusOf course currentStatus codes =
     (let newStatusCode = Math_max codes;
          newStatusCode = (if newStatusCode = NegInfinity then Num 0 else newStatusCode)
      in case newStatusCode of
           Num c \<Rightarrow>
             if c = 0 then
               Some (if currentStatus = completed \<or> currentStatus = enrolled
                     then currentStatus else ready)
             else if c = 1 then Some under_one_away
             else if c = 2 then Some one_away
             else Some over_one_away
         | PosInfinity \<Rightarrow> Some over_one_away
         | _ \<Rightarrow> None)"
| "newStatusOf gate_and currentStatus codes =
     (let newStatusCode = Math_max codes;
          newStatusCode = (if newStatusCode = NegInfinity then Num 0 else newStatusCode)
      in status_at newStatusCode)"
| "newStatusOf gate_or currentStatus codes =
     (let newStatusCode = Math_min codes;
          newStatusCode = (if newStatusCode = PosInfinity then Num 0 else newStatusCode)
      in status_at newStatusCode)"

text \<open>
  \<^verbatim>\<open>setNodeStatus\<close>: the node's \<^verbatim>\<open>data.nodeStatus\<close> is assigned in place, then
  the array slot of every outgoing edge is replaced by a copy with the new
  \<^verbatim>\<open>className\<close>. The two reads that can throw come first: the element under the
  id must have a \<^verbatim>\<open>data\<close> object, which only nodes have, and the id must have
  metadata. The writes of the loop never throw.
\<close>

fun setEdgeClasses :: "string list \<Rightarrow> status \<Rightarrow> element list \<Rightarrow> elemIndexMap \<Rightarrow> error + element list" where
  "setEdgeClasses [] newStatus elements elemIndexes = Inr elements"
| "setEdgeClasses (edgeId # rest) newStatus elements elemIndexes =
     (case map_of elemIndexes edgeId of
        None \<Rightarrow> Inl OutOfModel
      | Some j \<Rightarrow>
          if j < length elements then
            (case elements ! j of
               Edge e \<Rightarrow>
                 setEdgeClasses rest newStatus
                   (elements[j := Edge (e\<lparr>className := newStatus\<rparr>)]) elemIndexes
             | Node n \<Rightarrow> Inl OutOfModel)
          else Inl OutOfModel)"

definition setNodeStatus ::
  "string \<Rightarrow> status option \<Rightarrow> element list \<Rightarrow> nodeDataMap \<Rightarrow> elemIndexMap \<Rightarrow> error + element list" where
  "setNodeStatus nodeId newStatus elements nodeData elemIndexes =
     (case elem_at elements elemIndexes nodeId of
        None \<Rightarrow> Inl TypeError
      | Some (Edge e) \<Rightarrow> Inl TypeError
      | Some (Node n) \<Rightarrow>
          (case map_of nodeData nodeId of
             None \<Rightarrow> Inl TypeError
           | Some m \<Rightarrow>
               (case newStatus of
                  None \<Rightarrow> Inl OutOfModel
                | Some s \<Rightarrow>
                    setEdgeClasses (outgoingEdges m) s
                      (elements[the (map_of elemIndexes nodeId) := Node (n\<lparr>nodeStatus := s\<rparr>)])
                      elemIndexes)))"

definition updateNodeStatus ::
  "string \<Rightarrow> element list \<Rightarrow> nodeDataMap \<Rightarrow> elemIndexMap \<Rightarrow> error + element list" where
  "updateNodeStatus nodeId elements nodeData elemIndexes =
     (case elem_at elements elemIndexes nodeId of
        None \<Rightarrow> Inl TypeError
      | Some (Edge e) \<Rightarrow> Inl TypeError
      | Some (Node targetNode) \<Rightarrow>
          (let currentStatus = nodeStatus targetNode in
           case map_of nodeData nodeId of
             None \<Rightarrow> Inl TypeError
           | Some m \<Rightarrow>
               (let incoming = map (elem_at elements elemIndexes) (incomingEdges m) in
                case map_err getEdgeStatus incoming of
                  Inl err \<Rightarrow> Inl err
                | Inr codes \<Rightarrow>
                    setNodeStatus nodeId (newStatusOf (node_type targetNode) currentStatus codes)
                      elements nodeData elemIndexes)))"

text \<open>
  \<^verbatim>\<open>updateAllNodes\<close>: the \<^verbatim>\<open>for\<close> loop over \<^verbatim>\<open>i < nodeData.size\<close>. The ids
  are read from the array passed in, the updates go to the copy; ids never change, so
  the sharing of the node objects between the two arrays does not show in the result.
\<close>

function updateAllNodes_loop ::
  "nat \<Rightarrow> nat \<Rightarrow> element list \<Rightarrow> element list \<Rightarrow> nodeDataMap \<Rightarrow> elemIndexMap \<Rightarrow> error + element list" where
  "updateAllNodes_loop i numNodes elements updatedElements nodeData elemIndexes =
     (if i < numNodes then
        (if i < length elements then
           (case updateNodeStatus (elem_id (elements ! i)) updatedElements nodeData elemIndexes of
              Inl err \<Rightarrow> Inl err
            | Inr updated \<Rightarrow>
                updateAllNodes_loop (i + 1) numNodes elements updated nodeData elemIndexes)
         else Inl TypeError)
      else Inr updatedElements)"
  by pat_completeness auto
termination
  by (relation "measure (\<lambda>(i, numNodes, _). numNodes - i)") auto

definition updateAllNodes ::
  "element list \<Rightarrow> nodeDataMap \<Rightarrow> elemIndexMap \<Rightarrow> error + element list" where
  "updateAllNodes elements nodeData elemIndexes =
     updateAllNodes_loop 0 (map_size nodeData) elements elements nodeData elemIndexes"

text \<open>
  \<^verbatim>\<open>sortElementsByDepth\<close> sorts in place with the comparator \<^verbatim>\<open>aVal - bVal\<close>, where a
  node's value is its depth and an edge's is \<^verbatim>\<open>Number.POSITIVE_INFINITY\<close>. The
  difference of two infinities is \<^verbatim>\<open>NaN\<close>, which \<^verbatim>\<open>Array.prototype.sort\<close> reads
  as equal, so the comparator orders by the extended natural \<open>sort_value\<close>; the sort is
  stable. The comparator runs only when there are at least two elements, and then it
  reads the metadata of every node: a node without metadata is a \<^verbatim>\<open>TypeError\<close>.
\<close>

definition sort_value :: "nodeDataMap \<Rightarrow> element \<Rightarrow> enat" where
  "sort_value nodeData a =
     (if isNode a then enat (depth (the (map_of nodeData (elem_id a)))) else \<infinity>)"

definition sortElementsByDepth :: "element list \<Rightarrow> nodeDataMap \<Rightarrow> error + element list" where
  "sortElementsByDepth elements nodeData =
     (if 2 \<le> length elements \<and>
         (\<exists>a \<in> set elements. isNode a \<and> map_of nodeData (elem_id a) = None)
      then Inl TypeError
      else Inr (sort_key (sort_value nodeData) elements))"

definition newElemIndexes :: "element list \<Rightarrow> elemIndexMap" where
  "newElemIndexes elements =
     fold (\<lambda>(k, i). AList.update k i) (zip (map elem_id elements) [0 ..< length elements]) []"

subsection \<open>Vocabulary of the statements about the status engine\<close>

text \<open>Every id of the list is the id of an element that is an edge.\<close>

definition edges_resolve :: "element list \<Rightarrow> elemIndexMap \<Rightarrow> string list \<Rightarrow> bool" where
  "edges_resolve elements elemIndexes ids =
     (\<forall>k \<in> set ids. case elem_at elements elemIndexes k of Some (Edge e) \<Rightarrow> True | _ \<Rightarrow> False)"

text \<open>
  The metadata and the indexes fit the elements: every key of the metadata is the id of
  a node, and the ids of its incoming and outgoing edges are ids of edges.
\<close>

definition consistent :: "element list \<Rightarrow> nodeDataMap \<Rightarrow> elemIndexMap \<Rightarrow> bool" where
  "consistent elements nodeData elemIndexes =
     (\<forall>(k, m) \<in> set nodeData.
        (case elem_at elements elemIndexes k of Some (Node n) \<Rightarrow> True | _ \<Rightarrow> False) \<and>
        edges_resolve elements elemIndexes (incomingEdges m) \<and>
        edges_resolve elements elemIndexes (outgoingEdges m))"

text \<open>The status stored under an id, when the id is that of a node.\<close>

definition status_in :: "element list \<Rightarrow> elemIndexMap \<Rightarrow> string \<Rightarrow> status option" where
  "status_in els idx k =
     (case elem_at els idx k of Some (Node n) \<Rightarrow> Some (nodeStatus n) | _ \<Rightarrow> None)"

text \<open>\<^verbatim>\<open>updateNodeStatus\<close> called for each id of a list in turn, stopping at the first error.\<close>

fun run_updates ::
  "string list \<Rightarrow> element list \<Rightarrow> nodeDataMap \<Rightarrow> elemIndexMap \<Rightarrow> error + element list" where
  "run_updates [] updated nodeData elemIndexes = Inr updated"
| "run_updates (k # ks) updated nodeData elemIndexes =
     (case updateNodeStatus k updated nodeData elemIndexes of
        Inl err \<Rightarrow> Inl err
      | Inr updated' \<Rightarrow> run_updates ks updated' nodeData elemIndexes)"

text \<open>Every node stands before every edge.\<close>

definition nodes_before_edges :: "element list \<Rightarrow> bool" where
  "nodes_before_edges elements = (elements = filter isNode elements @ filter isEdge elements)"

section \<open>Regular expressions\<close>

text \<open>
  The parser is driven by five regular expressions. They are data of type \<open>regex\<close>,
  transcribed from the source constructor by constructor, and \<open>rx\<close> is the backtracking
  matcher of JavaScript as a list of successes: \<open>rx r (s, caps)\<close> lists, in the order
  in which backtracking would try them, the ways \<open>r\<close> can match a prefix of \<open>s\<close>, each
  as the rest of the input with the captures so far. Quantifiers are greedy: \<open>Opt\<close> and
  \<open>Plus\<close> try the longer alternative first. The first success is what
  \<^verbatim>\<open>RegExp.prototype.exec\<close> reports at that position.

  \<open>Plus\<close> repeats its body; a further round is tried only after a round that consumed
  input, so the length of the input bounds the number of rounds and \<open>plus_iter\<close>
  recurses on it. No body in the source matches the empty string.
\<close>

datatype regex =
    Lit string
  | Cls "(char \<times> char) list"
  | Seq regex regex
  | Alt regex regex
  | Opt regex
  | Plus regex
  | Grp regex
  | Eoi

type_synonym rxstate = "string \<times> string list"

definition in_class :: "(char \<times> char) list \<Rightarrow> char \<Rightarrow> bool" where
  "in_class ranges c =
     (\<exists>(lo, hi) \<in> set ranges. (of_char lo :: nat) \<le> of_char c \<and> (of_char c :: nat) \<le> of_char hi)"

fun plus_iter :: "(rxstate \<Rightarrow> rxstate list) \<Rightarrow> nat \<Rightarrow> rxstate \<Rightarrow> rxstate list" where
  "plus_iter f 0 st = f st"
| "plus_iter f (Suc n) st =
     concat (map (\<lambda>st'. (if length (fst st') < length (fst st) then plus_iter f n st' else [])
                          @ [st'])
                 (f st))"

fun rx :: "regex \<Rightarrow> rxstate \<Rightarrow> rxstate list" where
  "rx (Lit l) (s, caps) = (if take (length l) s = l then [(drop (length l) s, caps)] else [])"
| "rx (Cls ranges) (s, caps) =
     (case s of [] \<Rightarrow> [] | c # t \<Rightarrow> if in_class ranges c then [(t, caps)] else [])"
| "rx (Seq a b) st = concat (map (rx b) (rx a st))"
| "rx (Alt a b) st = rx a st @ rx b st"
| "rx (Opt a) st = rx a st @ [st]"
| "rx (Plus a) st = plus_iter (rx a) (length (fst st)) st"
| "rx (Grp a) (s, caps) =
     map (\<lambda>(s', caps'). (s', caps' @ [take (length s - length s') s])) (rx a (s, caps))"
| "rx Eoi (s, caps) = (if s = [] then [(s, caps)] else [])"

text \<open>The match at the start of \<open>s\<close>: the matched text and the captured groups.\<close>

definition match_here :: "regex \<Rightarrow> string \<Rightarrow> (string \<times> string list) option" where
  "match_here r s =
     (case rx r (s, []) of
        [] \<Rightarrow> None
      | (rest, caps) # _ \<Rightarrow> Some (take (length s - length rest) s, caps))"

text \<open>\<^verbatim>\<open>exec\<close> from index 0: the leftmost position with a match, the end of the input included.\<close>

fun regex_exec :: "regex \<Rightarrow> string \<Rightarrow> (string \<times> string list) option" where
  "regex_exec r [] = match_here r []"
| "regex_exec r (c # t) =
     (case match_here r (c # t) of Some m \<Rightarrow> Some m | None \<Rightarrow> regex_exec r t)"

text \<open>
  \<^verbatim>\<open>regex.test(s)\<close>. \<^verbatim>\<open>COURSE_REGEX\<close> carries the flag \<^verbatim>\<open>g\<close>, so its
  \<^verbatim>\<open>test\<close> starts at \<^verbatim>\<open>lastIndex\<close>; that index is 0 whenever
  \<^verbatim>\<open>generateInitialElements\<close> calls it, because every other use of the expression is
  \<^verbatim>\<open>s.match(COURSE_REGEX)\<close>, which leaves 0 behind, a failed \<^verbatim>\<open>test\<close> resets it,
  and a successful one is followed by such a \<^verbatim>\<open>match\<close> on the first section.
\<close>

definition regex_test :: "regex \<Rightarrow> string \<Rightarrow> bool" where
  "regex_test r s = (regex_exec r s \<noteq> None)"

text \<open>
  \<^verbatim>\<open>s.match(r)\<close> without the flag \<^verbatim>\<open>g\<close>: \<^verbatim>\<open>null\<close>, or the array of the matched
  text followed by the groups.
\<close>

definition str_match :: "regex \<Rightarrow> string \<Rightarrow> string list option" where
  "str_match r s = map_option (\<lambda>(whole, caps). whole # caps) (regex_exec r s)"

text \<open>
  \<^verbatim>\<open>s.match(r)\<close> with the flag \<^verbatim>\<open>g\<close>: the successive matches from left to right,
  each search resuming where the last match ended; \<^verbatim>\<open>null\<close> is the empty list. The
  counter is the number of characters still covered by the last match.
\<close>

fun match_all_from :: "regex \<Rightarrow> nat \<Rightarrow> string \<Rightarrow> string list" where
  "match_all_from r k [] =
     (if k = 0 then (case match_here r [] of None \<Rightarrow> [] | Some (whole, _) \<Rightarrow> [whole]) else [])"
| "match_all_from r (Suc k) (c # t) = match_all_from r k t"
| "match_all_from r 0 (c # t) =
     (case match_here r (c # t) of
        None \<Rightarrow> match_all_from r 0 t
      | Some (whole, _) \<Rightarrow> whole # match_all_from r (length whole - 1) t)"

definition match_all :: "regex \<Rightarrow> string \<Rightarrow> string list" where
  "match_all r s = match_all_from r 0 s"

text \<open>\<^verbatim>\<open>s.split(sep)\<close> for a separator of one character.\<close>

fun split_on :: "char \<Rightarrow> string \<Rightarrow> string list" where
  "split_on sep [] = [[]]"
| "split_on sep (c # t) =
     (if c = sep then [] # split_on sep t
      else (case split_on sep t of [] \<Rightarrow> [[c]] | h # rest \<Rightarrow> (c # h) # rest))"

text \<open>\<^verbatim>\<open>\d\<close>\<close>

definition digit :: regex where
  "digit = Cls [(CHR ''0'', CHR ''9'')]"

text \<open>\<^verbatim>\<open>(?:[A-Z&]+ )+\d{3}\<close>\<close>

definition CRS :: regex where
  "CRS = Seq (Plus (Seq (Plus (Cls [(CHR ''A'', CHR ''Z''), (CHR ''&'', CHR ''&'')])) (Lit '' '')))
             (Seq digit (Seq digit digit))"

definition COURSE_REGEX :: regex where
  "COURSE_REGEX = CRS"

text \<open>\<^verbatim>\<open>(?:[Ee]ither )?\<close>\<close>

definition either_prefix :: regex where
  "either_prefix = Opt (Seq (Cls [(CHR ''E'', CHR ''E''), (CHR ''e'', CHR ''e'')]) (Lit ''ither ''))"

text \<open>\<^verbatim>\<open>(?:[Ee]ither )?(CRS) or (CRS)\<close>\<close>

definition DOUBLE_EITHER_REGEX :: regex where
  "DOUBLE_EITHER_REGEX = Seq either_prefix (Seq (Grp CRS) (Seq (Lit '' or '') (Grp CRS)))"

text \<open>\<^verbatim>\<open>(?:[Ee]ither )?(CRS), (CRS),? or (CRS)\<close>\<close>

definition TRIPLE_EITHER_REGEX :: regex where
  "TRIPLE_EITHER_REGEX =
     Seq either_prefix
       (Seq (Grp CRS) (Seq (Lit '', '') (Seq (Grp CRS)
          (Seq (Opt (Lit '','')) (Seq (Lit '' or '') (Grp CRS))))))"

text \<open>\<^verbatim>\<open>(?:either of )?which may be taken concurrently(?:\. Instructor|\.?$)\<close>\<close>

definition CONCURRENT_REGEX :: regex where
  "CONCURRENT_REGEX =
     Seq (Opt (Lit ''either of ''))
       (Seq (Lit ''which may be taken concurrently'')
            (Alt (Lit ''. Instructor'') (Seq (Opt (Lit ''.'')) Eoi)))"

text \<open>A course id: the whole string matches the course pattern.\<close>

definition is_course_id :: "string \<Rightarrow> bool" where
  "is_course_id s = (\<exists>st \<in> set (rx CRS (s, [])). fst st = [])"

section \<open>Prerequisite parser\<close>

text \<open>
  \<^verbatim>\<open>generateInitialElements\<close> threads two mutable values through its loops: the array
  \<^verbatim>\<open>elements\<close> and the set \<^verbatim>\<open>elementIds\<close>. The second pass also draws ids for
  logic gates from \<^verbatim>\<open>nanoid()\<close>; the generator is the parameter \<open>nanoid\<close>, whose
  argument counts the ids drawn so far.
\<close>

type_synonym parseState = "element list \<times> string set"
type_synonym secondPassMap = "(string, string list) jsmap"

fun addEdges :: "string list \<Rightarrow> string \<Rightarrow> parseState \<Rightarrow> parseState" where
  "addEdges [] tgt st = st"
| "addEdges (src # sources) tgt (elements, elementIds) =
     (let edgeId = edgeArrowId src tgt in
      if src \<in> elementIds \<and> edgeId \<notin> elementIds \<and> edgeArrowId tgt src \<notin> elementIds
      then addEdges sources tgt
             (elements @ [Edge (newEdge src tgt (Some edgeId))], insert edgeId elementIds)
      else addEdges sources tgt (elements, elementIds))"

text \<open>
  \<^verbatim>\<open>if (!secondPass.has(courseId)) secondPass.set(courseId, []);
  secondPass.get(courseId).push(section);\<close>
\<close>

definition secondPass_push :: "string \<Rightarrow> string \<Rightarrow> secondPassMap \<Rightarrow> secondPassMap" where
  "secondPass_push courseId sec secondPass =
     (let secondPass = (if map_of secondPass courseId = None
                        then AList.update courseId [] secondPass else secondPass)
      in AList.update courseId (the (map_of secondPass courseId) @ [sec]) secondPass)"

text \<open>The inner loop of the first pass, over the sections of one prerequisite text.\<close>

fun firstPass_sections ::
  "string list \<Rightarrow> string \<Rightarrow> parseState \<times> secondPassMap \<Rightarrow> parseState \<times> secondPassMap" where
  "firstPass_sections [] courseId st = st"
| "firstPass_sections (sec # reqSections) courseId (ps, secondPass) =
     (let courseMatches = match_all COURSE_REGEX sec in
      if courseMatches = [] then firstPass_sections reqSections courseId (ps, secondPass)
      else if length courseMatches = 1
        then firstPass_sections reqSections courseId (addEdges courseMatches courseId ps, secondPass)
      else firstPass_sections reqSections courseId (ps, secondPass_push courseId sec secondPass))"

fun firstPass :: "courseData list \<Rightarrow> parseState \<times> secondPassMap \<Rightarrow> parseState \<times> secondPassMap" where
  "firstPass [] st = st"
| "firstPass (d # courseData) st =
     (if \<not> regex_test COURSE_REGEX (prerequisite d) then firstPass courseData st
      else firstPass courseData
             (firstPass_sections (split_on CHR '';'' (prerequisite d)) (course_id d) st))"

text \<open>\<^verbatim>\<open>if (CONCURRENT_REGEX.test(section)) edge = { ...edge, ...CONCURRENT_LABEL };\<close>\<close>

definition concurrentEdge :: "string \<Rightarrow> edge \<Rightarrow> edge" where
  "concurrentEdge sec e = (if regex_test CONCURRENT_REGEX sec then CONCURRENT_LABEL e else e)"

text \<open>The loop that wires every already required alternative into the gate.\<close>

fun gateEdges :: "string list \<Rightarrow> string \<Rightarrow> string \<Rightarrow> element list \<Rightarrow> element list" where
  "gateEdges [] orNodeId sec elements = elements"
| "gateEdges (req # alreadyRequired) orNodeId sec elements =
     gateEdges alreadyRequired orNodeId sec
       (elements @ [Edge (concurrentEdge sec (newEdge req orNodeId None))])"

text \<open>
  The body of the second pass for one deferred section of the course \<open>crs\<close>.
  \<^verbatim>\<open>section.match(COURSE_REGEX).length\<close> is a \<^verbatim>\<open>TypeError\<close> when the section holds no
  course id; the first pass defers only sections with more than one.
\<close>

definition secondPass_section ::
  "(nat \<Rightarrow> string) \<Rightarrow> string \<Rightarrow> string \<Rightarrow> string \<Rightarrow> parseState \<times> nat \<Rightarrow> error + parseState \<times> nat" where
  "secondPass_section nanoid ambiguousHandling crs sec st =
     (case st of ((elements, elementIds), k) \<Rightarrow>
      let doubleEitherMatch = str_match DOUBLE_EITHER_REGEX sec;
          tripleEitherMatch = str_match TRIPLE_EITHER_REGEX sec;
          matches = (case tripleEitherMatch of Some m \<Rightarrow> Some m | None \<Rightarrow> doubleEitherMatch);
          courseMatches = match_all COURSE_REGEX sec
      in if courseMatches = [] then Inl TypeError
         else
           let numCourses = length courseMatches in
           if matches \<noteq> None \<and> length (the matches) = numCourses + 1 then
             (let alreadyRequired = filter (\<lambda>m. m \<in> elementIds) (tl (the matches)) in
              if length alreadyRequired = 1 then
                Inr ((elements @ [Edge (concurrentEdge sec (newEdge (hd alreadyRequired) crs None))],
                      elementIds), k)
              else if length alreadyRequired > 1 then
                (let orNode = newConditionalNode gate_or (nanoid k);
                     elements = elements @ [Node orNode];
                     elements = elements @ [Edge (newEdge (node_id orNode) crs None)]
                 in Inr ((gateEdges alreadyRequired (node_id orNode) sec elements, elementIds),
                         k + 1))
              else if ambiguousHandling = ''aggressively'' then
                Inr (addEdges (tl (the matches)) crs (elements, elementIds), k)
              else Inr st)
           else if ambiguousHandling = ''aggressively'' then
             Inr (addEdges courseMatches crs (elements, elementIds), k)
           else Inr st)"

fun secondPass_sections ::
  "(nat \<Rightarrow> string) \<Rightarrow> string \<Rightarrow> string \<Rightarrow> string list \<Rightarrow> parseState \<times> nat \<Rightarrow> error + parseState \<times> nat" where
  "secondPass_sections nanoid ambiguousHandling crs [] st = Inr st"
| "secondPass_sections nanoid ambiguousHandling crs (sec # problemSection) st =
     (case secondPass_section nanoid ambiguousHandling crs sec st of
        Inl err \<Rightarrow> Inl err
      | Inr st' \<Rightarrow> secondPass_sections nanoid ambiguousHandling crs problemSection st')"

fun secondPass_entries ::
  "(nat \<Rightarrow> string) \<Rightarrow> string \<Rightarrow> secondPassMap \<Rightarrow> parseState \<times> nat \<Rightarrow> error + parseState \<times> nat" where
  "secondPass_entries nanoid ambiguousHandling [] st = Inr st"
| "secondPass_entries nanoid ambiguousHandling ((crs, problemSection) # entries) st =
     (case secondPass_sections nanoid ambiguousHandling crs problemSection st of
        Inl err \<Rightarrow> Inl err
      | Inr st' \<Rightarrow> secondPass_entries nanoid ambiguousHandling entries st')"

definition generateInitialElements ::
  "(nat \<Rightarrow> string) \<Rightarrow> courseData list \<Rightarrow> string \<Rightarrow> error + element list" where
  "generateInitialElements nanoid courseData ambiguousHandling =
     (let elements = map (\<lambda>c. Node (newCourseNode c)) courseData;
          elementIds = set (map course_id courseData);
          (ps, secondPass) = firstPass courseData ((elements, elementIds), [])
      in case secondPass_entries nanoid ambiguousHandling secondPass (ps, 0) of
           Inl err \<Rightarrow> Inl err
         | Inr ((elements, elementIds), k) \<Rightarrow> Inr elements)"

subsection \<open>The parser of \<^verbatim>\<open>parse-courses.js\<close>\<close>

text \<open>
  The repository holds a second definition of \<^verbatim>\<open>generateInitialElements\<close>, in the
  module that holds the parser alone; the dialog for a new flow imports the function
  from \<^verbatim>\<open>parse-courses.js\<close>, and the definitions of this subsection carry that name
  in front of the name of the function. The regular expressions of the module,
  \<^verbatim>\<open>newCourseNode\<close>, \<^verbatim>\<open>newEdge\<close>, \<^verbatim>\<open>addEdges\<close> and its first pass are those
  above, character for character; the module has no \<^verbatim>\<open>newConditionalNode\<close> and
  draws no id from \<^verbatim>\<open>nanoid()\<close>. The two definitions differ in one branch of the
  second pass, the one for a section with an accepted match of which some alternative
  is already registered:

  \<^verbatim>\<open>for (const req of alreadyRequired) { let edge = newEdge(req, course); if
  (CONCURRENT_REGEX.test(section)) edge = { ...edge, ...CONCURRENT_LABEL };
  elements.push(edge); if (!elementIds.has(req)) { elements.push(newCourseNode(req));
  elementIds.add(req); } }\<close>

  \<^verbatim>\<open>newCourseNode(req)\<close> would be applied to a string, which gives a node whose id
  is \<^verbatim>\<open>undefined\<close>: that branch leaves the data model.
\<close>

fun requiredEdges :: "string list \<Rightarrow> string \<Rightarrow> string \<Rightarrow> parseState \<Rightarrow> error + parseState" where
  "requiredEdges [] crs sec st = Inr st"
| "requiredEdges (req # alreadyRequired) crs sec (elements, elementIds) =
     (let elements = elements @ [Edge (concurrentEdge sec (newEdge req crs None))] in
      if req \<notin> elementIds then Inl OutOfModel
      else requiredEdges alreadyRequired crs sec (elements, elementIds))"

text \<open>The body of the second pass of \<^verbatim>\<open>parse-courses.js\<close> for one deferred section.\<close>

definition parse_courses_section ::
  "string \<Rightarrow> string \<Rightarrow> string \<Rightarrow> parseState \<Rightarrow> error + parseState" where
  "parse_courses_section ambiguousHandling crs sec st =
     (case st of (elements, elementIds) \<Rightarrow>
      let doubleEitherMatch = str_match DOUBLE_EITHER_REGEX sec;
          tripleEitherMatch = str_match TRIPLE_EITHER_REGEX sec;
          matches = (case tripleEitherMatch of Some m \<Rightarrow> Some m | None \<Rightarrow> doubleEitherMatch);
          courseMatches = match_all COURSE_REGEX sec
      in if courseMatches = [] then Inl TypeError
         else
           let numCourses = length courseMatches in
           if matches \<noteq> None \<and> length (the matches) = numCourses + 1 then
             (let alreadyRequired = filter (\<lambda>m. m \<in> elementIds) (tl (the matches)) in
              if length alreadyRequired \<noteq> 0 then
                requiredEdges alreadyRequired crs sec (elements, elementIds)
              else if ambiguousHandling = ''aggressively'' then
                Inr (addEdges (tl (the matches)) crs (elements, elementIds))
              else Inr st)
           else if ambiguousHandling = ''aggressively'' then
             Inr (addEdges courseMatches crs (elements, elementIds))
           else Inr st)"

fun parse_courses_sections ::
  "string \<Rightarrow> string \<Rightarrow> string list \<Rightarrow> parseState \<Rightarrow> error + parseState" where
  "parse_courses_sections ambiguousHandling crs [] st = Inr st"
| "parse_courses_sections ambiguousHandling crs (sec # problemSection) st =
     (case parse_courses_section ambiguousHandling crs sec st of
        Inl err \<Rightarrow> Inl err
      | Inr st' \<Rightarrow> parse_courses_sections ambiguousHandling crs problemSection st')"

fun parse_courses_entries ::
  "string \<Rightarrow> secondPassMap \<Rightarrow> parseState \<Rightarrow> error + parseState" where
  "parse_courses_entries ambiguousHandling [] st = Inr st"
| "parse_courses_entries ambiguousHandling ((crs, problemSection) # entries) st =
     (case parse_courses_sections ambiguousHandling crs problemSection st of
        Inl err \<Rightarrow> Inl err
      | Inr st' \<Rightarrow> parse_courses_entries ambiguousHandling entries st')"

definition parse_courses_generateInitialElements ::
  "courseData list \<Rightarrow> string \<Rightarrow> error + element list" where
  "parse_courses_generateInitialElements courseData ambiguousHandling =
     (let elements = map (\<lambda>c. Node (newCourseNode c)) courseData;
          elementIds = set (map course_id courseData);
          (ps, secondPass) = firstPass courseData ((elements, elementIds), [])
      in case parse_courses_entries ambiguousHandling secondPass ps of
           Inl err \<Rightarrow> Inl err
         | Inr (elements, elementIds) \<Rightarrow> Inr elements)"

subsection \<open>Vocabulary of the statements about the parser\<close>

text \<open>Every character that the expression can consume satisfies \<open>P\<close>.\<close>

fun atoms_in :: "regex \<Rightarrow> (char \<Rightarrow> bool) \<Rightarrow> bool" where
  "atoms_in (Lit l) P = (\<forall>c \<in> set l. P c)"
| "atoms_in (Cls ranges) P = (\<forall>c. in_class ranges c \<longrightarrow> P c)"
| "atoms_in (Seq a b) P = (atoms_in a P \<and> atoms_in b P)"
| "atoms_in (Alt a b) P = (atoms_in a P \<and> atoms_in b P)"
| "atoms_in (Opt a) P = atoms_in a P"
| "atoms_in (Plus a) P = atoms_in a P"
| "atoms_in (Grp a) P = atoms_in a P"
| "atoms_in Eoi P = True"

text \<open>
  From one matcher state to a later one: a prefix of the input was consumed and groups
  were added, all made of characters that satisfy \<open>P\<close>.
\<close>

definition consumed :: "(char \<Rightarrow> bool) \<Rightarrow> rxstate \<Rightarrow> rxstate \<Rightarrow> bool" where
  "consumed P st st' =
     (\<exists>u new. fst st = u @ fst st' \<and> (\<forall>c \<in> set u. P c) \<and>
              snd st' = snd st @ new \<and> (\<forall>g \<in> set new. \<forall>c \<in> set g. P c))"

definition id_char :: "char \<Rightarrow> bool" where
  "id_char c = (c \<noteq> CHR ''-'')"

text \<open>
  The match that the second pass accepts for a section: the triple pattern before the
  double one, and only if the array of the match is one longer than the list of course
  ids in the section.
\<close>

definition accepted_match :: "string \<Rightarrow> string list option" where
  "accepted_match sec =
     (let matches = (case str_match TRIPLE_EITHER_REGEX sec of
                       Some m \<Rightarrow> Some m | None \<Rightarrow> str_match DOUBLE_EITHER_REGEX sec)
      in if matches \<noteq> None \<and> length (the matches) = length (match_all COURSE_REGEX sec) + 1
         then matches else None)"

text \<open>The ordered pairs joined by the edges of a list, one entry per edge.\<close>

fun edge_pairs :: "element list \<Rightarrow> (string \<times> string) list" where
  "edge_pairs [] = []"
| "edge_pairs (Node n # els) = edge_pairs els"
| "edge_pairs (Edge e # els) = (source e, target e) # edge_pairs els"

text \<open>
  At most one edge for an ordered pair, and no edge between two different ids together
  with its reverse.
\<close>

definition simple_edges :: "element list \<Rightarrow> bool" where
  "simple_edges els =
     (distinct (edge_pairs els) \<and>
      (\<forall>(a, b) \<in> set (edge_pairs els). a \<noteq> b \<longrightarrow> (b, a) \<notin> set (edge_pairs els)))"

definition all_sections :: "courseData list \<Rightarrow> string list" where
  "all_sections courseData = concat (map (\<lambda>d. split_on CHR '';'' (prerequisite d)) courseData)"

text \<open>
  No section with an accepted match names a course of the list among its alternatives,
  so the second pass pushes no edge of its own and adds edges through
  \<^verbatim>\<open>addEdges\<close> only.
\<close>

definition no_required_alternative :: "courseData list \<Rightarrow> bool" where
  "no_required_alternative courseData =
     (\<forall>sec \<in> set (all_sections courseData).
        case accepted_match sec of
          None \<Rightarrow> True
        | Some ms \<Rightarrow> set (tl ms) \<inter> set (map course_id courseData) = {})"

text \<open>
  The invariant of the guarded path: every edge is registered under its arrow id, the
  edges are simple, and a registered id is a course id or contains a hyphen.
\<close>

definition parse_inv :: "string set \<Rightarrow> parseState \<Rightarrow> bool" where
  "parse_inv C ps =
     ((\<forall>(a, b) \<in> set (edge_pairs (fst ps)). edgeArrowId a b \<in> snd ps) \<and>
      simple_edges (fst ps) \<and>
      (\<forall>x \<in> snd ps. x \<in> C \<or> CHR ''-'' \<in> set x))"

text \<open>Every deferred section is a section of the input and holds a course id.\<close>

definition deferred_ok :: "string set \<Rightarrow> secondPassMap \<Rightarrow> bool" where
  "deferred_ok S sp =
     (\<forall>(c, ss) \<in> set sp. \<forall>s \<in> set ss. s \<in> S \<and> match_all COURSE_REGEX s \<noteq> [])"

text \<open>
  What the second pass of the definition with gates appends for a section of the course
  \<open>crs\<close> whose registered alternatives are \<open>reqs\<close>: the gate with the id drawn from
  \<^verbatim>\<open>nanoid()\<close>, the edge from the gate to the course, and an edge into the gate for
  every entry of \<open>reqs\<close>, in this order.
\<close>

definition gate_block :: "string \<Rightarrow> string \<Rightarrow> string \<Rightarrow> string list \<Rightarrow> element list" where
  "gate_block nano crs sec reqs =
     [Node (newConditionalNode gate_or nano), Edge (newEdge (''OR-'' @ nano) crs None)]
     @ map (\<lambda>req. Edge (concurrentEdge sec (newEdge req (''OR-'' @ nano) None))) reqs"

text \<open>
  What the second pass of \<^verbatim>\<open>parse-courses.js\<close> appends for the same section: an edge
  to the course itself for every entry of \<open>reqs\<close>.
\<close>

definition direct_block :: "string \<Rightarrow> string \<Rightarrow> string list \<Rightarrow> element list" where
  "direct_block crs sec reqs = map (\<lambda>req. Edge (concurrentEdge sec (newEdge req crs None))) reqs"

text \<open>
  The registered ids are the course ids of the list and ids with a hyphen, which only
  \<^verbatim>\<open>addEdges\<close> registers.
\<close>

definition ids_inv :: "string set \<Rightarrow> string set \<Rightarrow> bool" where
  "ids_inv C ids = (C \<subseteq> ids \<and> (\<forall>x \<in> ids. x \<in> C \<or> CHR ''-'' \<in> set x))"

text \<open>The section \<open>s\<close> is deferred under the key \<open>k\<close>.\<close>

definition deferred_in :: "secondPassMap \<Rightarrow> string \<Rightarrow> string \<Rightarrow> bool" where
  "deferred_in sp k s = (\<exists>ss. map_of sp k = Some ss \<and> s \<in> set ss)"

text \<open>
  The expression has no \<^verbatim>\<open>$\<close>, so that a match of a text is a match of every
  extension of the text.
\<close>

fun anchor_free :: "regex \<Rightarrow> bool" where
  "anchor_free (Lit l) = True"
| "anchor_free (Cls ranges) = True"
| "anchor_free (Seq a b) = (anchor_free a \<and> anchor_free b)"
| "anchor_free (Alt a b) = (anchor_free a \<and> anchor_free b)"
| "anchor_free (Opt a) = anchor_free a"
| "anchor_free (Plus a) = anchor_free a"
| "anchor_free (Grp a) = anchor_free a"
| "anchor_free Eoi = False"

section \<open>Graph metadata\<close>

text \<open>
  \<^verbatim>\<open>getConnectedEdges\<close>, \<^verbatim>\<open>getOutgoers\<close> and \<^verbatim>\<open>getIncomers\<close> belong to the
  rendering library. \<^verbatim>\<open>getConnectedEdges(nodes, edges)\<close> keeps the edges with an end
  among the ids of \<open>nodes\<close>. \<^verbatim>\<open>getOutgoers(node, elements)\<close> collects the targets of
  the edges that leave the node and returns the elements whose id is among them, in the
  order of \<open>elements\<close>; \<^verbatim>\<open>getIncomers\<close> does the same with the sources of the edges
  that enter it.
\<close>

definition getConnectedEdges :: "element list \<Rightarrow> element list \<Rightarrow> element list" where
  "getConnectedEdges nodes edges =
     (let nodeIds = map elem_id nodes
      in filter (\<lambda>e. case e of Edge ed \<Rightarrow> source ed \<in> set nodeIds \<or> target ed \<in> set nodeIds
                         | Node n \<Rightarrow> False) edges)"

definition getOutgoers :: "element \<Rightarrow> element list \<Rightarrow> element list" where
  "getOutgoers nd elements =
     (if \<not> isNode nd then []
      else let outgoerIds =
                 concat (map (\<lambda>e. case e of Edge ed \<Rightarrow> if source ed = elem_id nd then [target ed] else []
                                   | Node n \<Rightarrow> []) elements)
           in filter (\<lambda>e. elem_id e \<in> set outgoerIds) elements)"

definition getIncomers :: "element \<Rightarrow> element list \<Rightarrow> element list" where
  "getIncomers nd elements =
     (if \<not> isNode nd then []
      else let incomersIds =
                 concat (map (\<lambda>e. case e of Edge ed \<Rightarrow> if target ed = elem_id nd then [source ed] else []
                                   | Node n \<Rightarrow> []) elements)
           in filter (\<lambda>e. elem_id e \<in> set incomersIds) elements)"

definition getIncomingEdges :: "element \<Rightarrow> element list \<Rightarrow> element list" where
  "getIncomingEdges targetNode elements =
     (let connectedEdges = getConnectedEdges [targetNode] (filter isEdge elements)
      in filter (\<lambda>e. case e of Edge ed \<Rightarrow> target ed = elem_id targetNode | Node n \<Rightarrow> False)
           connectedEdges)"

definition getOutgoingEdges :: "element \<Rightarrow> element list \<Rightarrow> element list" where
  "getOutgoingEdges targetNode elements =
     (let connectedEdges = getConnectedEdges [targetNode] (filter isEdge elements)
      in filter (\<lambda>e. case e of Edge ed \<Rightarrow> source ed = elem_id targetNode | Node n \<Rightarrow> False)
           connectedEdges)"

text \<open>
  \<^verbatim>\<open>discoverMaxDepths\<close> recurses without a guard, so on a cycle it never returns: the
  result is an \<open>option\<close>, and \<open>None\<close> is the run that does not end.
  \<open>discoverMaxDepths_loop\<close> is the \<^verbatim>\<open>for\<close> loop of its body over the outgoers that
  remain: it raises the depth of the first one, recurses into it (which is the same loop
  over that node's outgoers, one level deeper), and goes on with the rest. Reading the
  metadata of an id that has none is a \<^verbatim>\<open>TypeError\<close>.
\<close>

partial_function (option) discoverMaxDepths_loop ::
  "string list \<Rightarrow> nat \<Rightarrow> nodeDataMap \<Rightarrow> (error + nodeDataMap) option" where
  "discoverMaxDepths_loop outgoers startDepth nodeData =
     (case outgoers of
        [] \<Rightarrow> Some (Inr nodeData)
      | outgoerId # rest \<Rightarrow>
          (case map_of nodeData outgoerId of
             None \<Rightarrow> Some (Inl TypeError)
           | Some m \<Rightarrow>
               Option.bind
                 (discoverMaxDepths_loop (outgoingNodes m) (startDepth + 1)
                    (AList.update outgoerId (m\<lparr>depth := max (depth m) (startDepth + 1)\<rparr>) nodeData))
                 (\<lambda>r. case r of
                        Inl err \<Rightarrow> Some (Inl err)
                      | Inr nodeData' \<Rightarrow> discoverMaxDepths_loop rest startDepth nodeData')))"

declare discoverMaxDepths_loop.simps [code]

definition discoverMaxDepths :: "string \<Rightarrow> nat \<Rightarrow> nodeDataMap \<Rightarrow> (error + nodeDataMap) option" where
  "discoverMaxDepths startNodeId startDepth nodeData =
     (case map_of nodeData startNodeId of
        None \<Rightarrow> Some (Inl TypeError)
      | Some m \<Rightarrow> discoverMaxDepths_loop (outgoingNodes m) startDepth nodeData)"

definition newData :: "element \<Rightarrow> element list \<Rightarrow> nodeMeta" where
  "newData nd elements =
     (let inN = map elem_id (getIncomers nd elements);
          inE = map elem_id (getIncomingEdges nd elements);
          outE = map elem_id (getOutgoingEdges nd elements);
          outN = map elem_id (getOutgoers nd elements)
      in \<lparr> depth = 0, incomingNodes = inN, incomingEdges = inE, outgoingEdges = outE,
           outgoingNodes = outN, connectedEdges = inE @ outE, connectedNodes = inN @ outN \<rparr>)"

text \<open>The first loop of \<^verbatim>\<open>newNodeData\<close>: the metadata of every node, and the roots.\<close>

fun initialNodeData ::
  "element list \<Rightarrow> element list \<Rightarrow> nodeDataMap \<times> string list \<Rightarrow> nodeDataMap \<times> string list" where
  "initialNodeData [] elements st = st"
| "initialNodeData (nd # nodes) elements (nodeData, roots) =
     (let nodeId = elem_id nd;
          d = newData nd elements;
          nodeData = AList.update nodeId d nodeData;
          roots = (if length (incomingNodes d) = 0 then roots @ [nodeId] else roots)
      in initialNodeData nodes elements (nodeData, roots))"

text \<open>The second loop: the depths, from every root.\<close>

fun discoverRoots :: "string list \<Rightarrow> nodeDataMap \<Rightarrow> (error + nodeDataMap) option" where
  "discoverRoots [] nodeData = Some (Inr nodeData)"
| "discoverRoots (rootId # roots) nodeData =
     (case discoverMaxDepths rootId 0 nodeData of
        None \<Rightarrow> None
      | Some (Inl err) \<Rightarrow> Some (Inl err)
      | Some (Inr nodeData') \<Rightarrow> discoverRoots roots nodeData')"

definition newNodeData :: "element list \<Rightarrow> (error + nodeDataMap) option" where
  "newNodeData elements =
     (case initialNodeData (filter isNode elements) elements ([], []) of
        (nodeData, roots) \<Rightarrow> discoverRoots roots nodeData)"

subsection \<open>Vocabulary of the statements about the metadata\<close>

text \<open>The ids of the nodes of a list; every edge of the list joins two of them.\<close>

definition node_ids :: "element list \<Rightarrow> string set" where
  "node_ids els = set (map elem_id (filter isNode els))"

definition graph_closed :: "element list \<Rightarrow> bool" where
  "graph_closed els = (\<forall>(a, b) \<in> set (edge_pairs els). a \<in> node_ids els \<and> b \<in> node_ids els)"

text \<open>The outgoing nodes and the depth that the metadata record for an id.\<close>

definition outs :: "nodeDataMap \<Rightarrow> string \<Rightarrow> string list" where
  "outs nd k = (case map_of nd k of None \<Rightarrow> [] | Some m \<Rightarrow> outgoingNodes m)"

definition dep :: "nodeDataMap \<Rightarrow> string \<Rightarrow> nat" where
  "dep nd k = (case map_of nd k of None \<Rightarrow> 0 | Some m \<Rightarrow> depth m)"

text \<open>
  The invariant of the traversal at a node: once its depth is positive, each of its
  successors lies deeper.
\<close>

definition dfs_ok :: "(string \<Rightarrow> string list) \<Rightarrow> nodeDataMap \<Rightarrow> string \<Rightarrow> bool" where
  "dfs_ok G nd x = (0 < dep nd x \<longrightarrow> (\<forall>y \<in> set (G x). dep nd x + 1 \<le> dep nd y))"

text \<open>
  What the loop over the outgoers \<open>os\<close> at depth \<open>d\<close> achieves: depths only grow, every
  outgoer ends deeper than \<open>d\<close>, the invariant is kept, and only nodes that can be
  reached from an outgoer change.
\<close>

definition dfs_post ::
  "(string \<Rightarrow> string list) \<Rightarrow> string list \<Rightarrow> nat \<Rightarrow> nodeDataMap \<Rightarrow> nodeDataMap \<Rightarrow> bool" where
  "dfs_post G os d nd1 nd2 =
     ((\<forall>x. dep nd1 x \<le> dep nd2 x) \<and>
      (\<forall>x \<in> set os. d + 1 \<le> dep nd2 x) \<and>
      (\<forall>x. dfs_ok G nd1 x \<longrightarrow> dfs_ok G nd2 x) \<and>
      (\<forall>x. (\<forall>p \<in> set os. (p, x) \<notin> {(u, v). v \<in> set (G u)}\<^sup>*) \<longrightarrow> dep nd2 x = dep nd1 x))"

section \<open>Example flows\<close>

text \<open>
  A small flow around one logic gate: three courses, completed, enrolled and ready, feed
  the gate, and the gate feeds a fourth course. The elements are in the order of
  \<^verbatim>\<open>sortElementsByDepth\<close>; \<open>gate_flow_data\<close> and \<open>gate_flow_indexes\<close> are what
  \<^verbatim>\<open>newNodeData\<close> and \<^verbatim>\<open>newElemIndexes\<close> compute for them.
\<close>

definition mk_meta ::
  "nat \<Rightarrow> string list \<Rightarrow> string list \<Rightarrow> string list \<Rightarrow> string list \<Rightarrow> nodeMeta" where
  "mk_meta d inN inE outE outN =
     \<lparr> depth = d, incomingNodes = inN, incomingEdges = inE, outgoingEdges = outE,
       outgoingNodes = outN, connectedEdges = inE @ outE, connectedNodes = inN @ outN \<rparr>"

definition example_course :: "string \<Rightarrow> status \<Rightarrow> element" where
  "example_course c s =
     Node ((newCourseNode \<lparr> course_id = c, prerequisite = [] \<rparr>)\<lparr> nodeStatus := s \<rparr>)"

definition example_edge :: "string \<Rightarrow> string \<Rightarrow> status \<Rightarrow> element" where
  "example_edge a b s = Edge ((newEdge a b None)\<lparr> className := s \<rparr>)"

definition example_gate :: "nodeType \<Rightarrow> node" where
  "example_gate ty = (newConditionalNode ty ''g1'')\<lparr> node_id := ''GATE-g1'' \<rparr>"

definition gate_flow :: "nodeType \<Rightarrow> element list" where
  "gate_flow ty =
     [ example_course ''CSE 142'' completed,
       example_course ''CSE 143'' enrolled,
       example_course ''CSE 154'' ready,
       Node (example_gate ty),
       example_course ''CSE 373'' over_one_away,
       example_edge ''CSE 142'' ''GATE-g1'' completed,
       example_edge ''CSE 143'' ''GATE-g1'' enrolled,
       example_edge ''CSE 154'' ''GATE-g1'' ready,
       example_edge ''GATE-g1'' ''CSE 373'' completed ]"

definition gate_meta :: nodeMeta where
  "gate_meta =
     mk_meta 1 [''CSE 142'', ''CSE 143'', ''CSE 154'']
       [''CSE 142 -> GATE-g1'', ''CSE 143 -> GATE-g1'', ''CSE 154 -> GATE-g1'']
       [''GATE-g1 -> CSE 373''] [''CSE 373'']"

definition gate_flow_data :: nodeDataMap where
  "gate_flow_data =
     [ (''CSE 142'', mk_meta 0 [] [] [''CSE 142 -> GATE-g1''] [''GATE-g1'']),
       (''CSE 143'', mk_meta 0 [] [] [''CSE 143 -> GATE-g1''] [''GATE-g1'']),
       (''CSE 154'', mk_meta 0 [] [] [''CSE 154 -> GATE-g1''] [''GATE-g1'']),
       (''GATE-g1'', gate_meta),
       (''CSE 373'', mk_meta 2 [''GATE-g1''] [''GATE-g1 -> CSE 373''] [] []) ]"

definition gate_flow_indexes :: elemIndexMap where
  "gate_flow_indexes =
     [ (''CSE 142'', 0), (''CSE 143'', 1), (''CSE 154'', 2), (''GATE-g1'', 3), (''CSE 373'', 4),
       (''CSE 142 -> GATE-g1'', 5), (''CSE 143 -> GATE-g1'', 6), (''CSE 154 -> GATE-g1'', 7),
       (''GATE-g1 -> CSE 373'', 8) ]"

text \<open>Course lists for the parser, and a generator of gate ids.\<close>

definition nanoid_example :: "nat \<Rightarrow> string" where
  "nanoid_example k = replicate (Suc k) CHR ''x''"

definition math125 :: courseData where
  "math125 = \<lparr> course_id = ''MATH 125'', prerequisite = ''Either MATH 124 or MATH 134'' \<rparr>"

definition math125_and :: courseData where
  "math125_and = \<lparr> course_id = ''MATH 125'', prerequisite = ''MATH 124 and MATH 134'' \<rparr>"

definition cse_courses :: "courseData list" where
  "cse_courses =
     [ \<lparr> course_id = ''CSE 311'', prerequisite = [] \<rparr>,
       \<lparr> course_id = ''CSE 321'', prerequisite = [] \<rparr>,
       \<lparr> course_id = ''CSE 332'', prerequisite = ''CSE 311, CSE 321, or CSE 331'' \<rparr> ]"

definition self_course :: courseData where
  "self_course = \<lparr> course_id = ''BIOL 200'', prerequisite = ''BIOL 200'' \<rparr>"

definition biol_courses :: "courseData list" where
  "biol_courses =
     [ \<lparr> course_id = ''BIOL 180'', prerequisite = ''BIOL 200; BIOL 200 or BIOL 220'' \<rparr>,
       \<lparr> course_id = ''BIOL 200'', prerequisite = ''BIOL 180 or BIOL 220'' \<rparr> ]"

definition cse14x_courses :: "courseData list" where
  "cse14x_courses =
     [ \<lparr> course_id = ''CSE 142'', prerequisite = [] \<rparr>,
       \<lparr> course_id = ''CSE 143'', prerequisite = ''CSE 142'' \<rparr>,
       \<lparr> course_id = ''CSE 154'', prerequisite = ''CSE 142 and CSE 143; CSE 143'' \<rparr> ]"

text \<open>
  The course \<^verbatim>\<open>CSE 332\<close> with a section that requires \<^verbatim>\<open>CSE 311\<close> before the
  section with the alternatives, and with a section that names \<^verbatim>\<open>CSE 311\<close> twice.
\<close>

definition cse_mixed_courses :: "courseData list" where
  "cse_mixed_courses =
     [ \<lparr> course_id = ''CSE 311'', prerequisite = [] \<rparr>,
       \<lparr> course_id = ''CSE 321'', prerequisite = [] \<rparr>,
       \<lparr> course_id = ''CSE 332'', prerequisite = ''CSE 311; CSE 311, CSE 321, or CSE 331'' \<rparr> ]"

definition cse_repeat_courses :: "courseData list" where
  "cse_repeat_courses =
     [ \<lparr> course_id = ''CSE 311'', prerequisite = [] \<rparr>,
       \<lparr> course_id = ''CSE 321'', prerequisite = [] \<rparr>,
       \<lparr> course_id = ''CSE 332'', prerequisite = ''CSE 311, CSE 311, or CSE 321'' \<rparr> ]"

section \<open>Properties of the status engine\<close>

lemma COURSE_STATUS_CODES_simps:
  "COURSE_STATUS_CODES completed = 0" "COURSE_STATUS_CODES enrolled = 1"
  "COURSE_STATUS_CODES ready = 2" "COURSE_STATUS_CODES under_one_away = 3"
  "COURSE_STATUS_CODES one_away = 4" "COURSE_STATUS_CODES over_one_away = 5"
  by (simp_all add: COURSE_STATUS_CODES_def COURSE_STATUSES_def)

lemma COURSE_STATUSES_nth: "COURSE_STATUSES ! COURSE_STATUS_CODES s = s"
  by (cases s) (simp_all add: COURSE_STATUS_CODES_simps, simp_all add: COURSE_STATUSES_def)

lemma setEdgeClasses_frame:
  "setEdgeClasses ids s els idx = Inr els' \<Longrightarrow>
     length els' = length els \<and>
     (\<forall>j < length els.
        els' ! j = els ! j \<or>
        (\<exists>e. els ! j = Edge e \<and> els' ! j = Edge (e\<lparr>className := s\<rparr>)
             \<and> (\<exists>k \<in> set ids. map_of idx k = Some j)))"
proof (induction ids arbitrary: els)
  case Nil
  then show ?case by simp
next
  case (Cons k ks)
  from Cons.prems obtain j e where j: "map_of idx k = Some j" "j < length els" "els ! j = Edge e"
    and rest: "setEdgeClasses ks s (els[j := Edge (e\<lparr>className := s\<rparr>)]) idx = Inr els'"
    by (auto split: option.splits if_splits element.splits)
  from Cons.IH[OF rest] have len: "length els' = length els"
    and fr: "\<forall>i < length els. els' ! i = (els[j := Edge (e\<lparr>className := s\<rparr>)]) ! i \<or>
        (\<exists>e'. (els[j := Edge (e\<lparr>className := s\<rparr>)]) ! i = Edge e' \<and> els' ! i = Edge (e'\<lparr>className := s\<rparr>)
             \<and> (\<exists>k \<in> set ks. map_of idx k = Some i))"
    by simp_all
  show ?case
  proof (intro conjI allI impI)
    show "length els' = length els" by (rule len)
  next
    fix i assume i: "i < length els"
    show "els' ! i = els ! i \<or>
        (\<exists>e. els ! i = Edge e \<and> els' ! i = Edge (e\<lparr>className := s\<rparr>)
             \<and> (\<exists>k \<in> set (k # ks). map_of idx k = Some i))"
    proof (cases "i = j")
      case True
      from fr i have "els' ! i = (els[j := Edge (e\<lparr>className := s\<rparr>)]) ! i \<or>
        (\<exists>e'. (els[j := Edge (e\<lparr>className := s\<rparr>)]) ! i = Edge e' \<and> els' ! i = Edge (e'\<lparr>className := s\<rparr>)
             \<and> (\<exists>k \<in> set ks. map_of idx k = Some i))" by blast
      with True i j show ?thesis by auto
    next
      case False
      from fr i have "els' ! i = (els[j := Edge (e\<lparr>className := s\<rparr>)]) ! i \<or>
        (\<exists>e'. (els[j := Edge (e\<lparr>className := s\<rparr>)]) ! i = Edge e' \<and> els' ! i = Edge (e'\<lparr>className := s\<rparr>)
             \<and> (\<exists>k \<in> set ks. map_of idx k = Some i))" by blast
      with False i j show ?thesis by auto
    qed
  qed
qed

lemma setEdgeClasses_total:
  "edges_resolve els idx ids \<Longrightarrow> \<exists>els'. setEdgeClasses ids s els idx = Inr els'"
proof (induction ids arbitrary: els)
  case Nil
  then show ?case by simp
next
  case (Cons k ks)
  from Cons.prems obtain j e where j: "map_of idx k = Some j" "j < length els" "els ! j = Edge e"
    by (auto simp: edges_resolve_def elem_at_def split: option.splits if_splits element.splits)
  have "edges_resolve (els[j := Edge (e\<lparr>className := s\<rparr>)]) idx ks"
    unfolding edges_resolve_def
  proof
    fix k' assume k': "k' \<in> set ks"
    with Cons.prems have "case elem_at els idx k' of Some (Edge e) \<Rightarrow> True | _ \<Rightarrow> False"
      by (simp add: edges_resolve_def)
    then show "case elem_at (els[j := Edge (e\<lparr>className := s\<rparr>)]) idx k' of Some (Edge e) \<Rightarrow> True | _ \<Rightarrow> False"
      using j by (auto simp: elem_at_def nth_list_update split: option.splits if_splits element.splits)
  qed
  from Cons.IH[OF this] show ?case using j by simp
qed


lemma elem_at_SomeD:
  "elem_at els idx k = Some x \<Longrightarrow> \<exists>i. map_of idx k = Some i \<and> i < length els \<and> els ! i = x"
  by (auto simp: elem_at_def split: option.splits if_splits)

lemma setNodeStatus_result:
  assumes at: "elem_at els idx k = Some (Node n)"
    and res: "setNodeStatus k (Some s) els nd idx = Inr els'"
  shows "elem_at els' idx k = Some (Node (n\<lparr>nodeStatus := s\<rparr>)) \<and> length els' = length els"
proof -
  from elem_at_SomeD[OF at] obtain i where i: "map_of idx k = Some i" "i < length els" "els ! i = Node n"
    by blast
  from res at i obtain m where m: "map_of nd k = Some m"
    and sec: "setEdgeClasses (outgoingEdges m) s (els[i := Node (n\<lparr>nodeStatus := s\<rparr>)]) idx = Inr els'"
    by (auto simp: setNodeStatus_def split: option.splits)
  from setEdgeClasses_frame[OF sec] have len: "length els' = length els"
    and fr: "els' ! i = (els[i := Node (n\<lparr>nodeStatus := s\<rparr>)]) ! i \<or>
        (\<exists>e. (els[i := Node (n\<lparr>nodeStatus := s\<rparr>)]) ! i = Edge e)"
    using i by auto
  from fr i have "els' ! i = Node (n\<lparr>nodeStatus := s\<rparr>)" by simp
  with len i show ?thesis by (simp add: elem_at_def)
qed

lemma setNodeStatus_total:
  assumes at: "elem_at els idx k = Some (Node n)"
    and m: "map_of nd k = Some m"
    and ok: "edges_resolve els idx (outgoingEdges m)"
  shows "\<exists>els'. setNodeStatus k (Some s) els nd idx = Inr els'"
proof -
  from elem_at_SomeD[OF at] obtain i where i: "map_of idx k = Some i" "i < length els" "els ! i = Node n"
    by blast
  have "edges_resolve (els[i := Node (n\<lparr>nodeStatus := s\<rparr>)]) idx (outgoingEdges m)"
    unfolding edges_resolve_def
  proof
    fix k' assume "k' \<in> set (outgoingEdges m)"
    with ok have "case elem_at els idx k' of Some (Edge e) \<Rightarrow> True | _ \<Rightarrow> False"
      by (simp add: edges_resolve_def)
    then show "case elem_at (els[i := Node (n\<lparr>nodeStatus := s\<rparr>)]) idx k' of Some (Edge e) \<Rightarrow> True | _ \<Rightarrow> False"
      using i by (auto simp: elem_at_def nth_list_update split: option.splits if_splits element.splits)
  qed
  from setEdgeClasses_total[OF this] show ?thesis
    using at m i by (simp add: setNodeStatus_def)
qed

lemma updateNodeStatus_unfold:
  assumes "elem_at els idx k = Some (Node n)" "map_of nd k = Some m"
    and "map_err getEdgeStatus (map (elem_at els idx) (incomingEdges m)) = Inr codes"
  shows "updateNodeStatus k els nd idx =
           setNodeStatus k (newStatusOf (node_type n) (nodeStatus n) codes) els nd idx"
  using assms by (simp add: updateNodeStatus_def)

text \<open>
  Claim C1, as the code has it. A logic gate whose incoming edges have the effective
  status codes 0, 1 and 2 is updated to the status with code 2 when it is an
  \<^verbatim>\<open>and\<close> gate and to the status with code 0 when it is an \<^verbatim>\<open>or\<close> gate.
  Code 2 is \<^verbatim>\<open>ready\<close> and code 0 is \<^verbatim>\<open>completed\<close>; \<^verbatim>\<open>one-away\<close> has code 4.
  The update returns whenever the outgoing edges of the gate are edges of the list.
\<close>

theorem gate_status_codes_012:
  assumes at: "elem_at elements elemIndexes nodeId = Some (Node g)"
    and m: "map_of nodeData nodeId = Some m"
    and codes: "map_err getEdgeStatus (map (elem_at elements elemIndexes) (incomingEdges m))
                  = Inr [Some 0, Some 1, Some 2]"
    and ok: "edges_resolve elements elemIndexes (outgoingEdges m)"
  shows "(node_type g = gate_and \<longrightarrow>
            (\<exists>els'. updateNodeStatus nodeId elements nodeData elemIndexes = Inr els' \<and>
                    elem_at els' elemIndexes nodeId = Some (Node (g\<lparr>nodeStatus := ready\<rparr>)))) \<and>
         (node_type g = gate_or \<longrightarrow>
            (\<exists>els'. updateNodeStatus nodeId elements nodeData elemIndexes = Inr els' \<and>
                    elem_at els' elemIndexes nodeId = Some (Node (g\<lparr>nodeStatus := completed\<rparr>)))) \<and>
         COURSE_STATUS_CODES ready = 2 \<and> COURSE_STATUS_CODES completed = 0 \<and>
         COURSE_STATUS_CODES one_away = 4"
proof (intro conjI impI)
  assume ty: "node_type g = gate_and"
  have ns: "newStatusOf (node_type g) (nodeStatus g) [Some 0, Some 1, Some 2] = Some ready"
    by (simp add: ty Math_max_def COURSE_STATUSES_def)
  from setNodeStatus_total[OF at m ok] obtain els' where
    r: "setNodeStatus nodeId (Some ready) elements nodeData elemIndexes = Inr els'" by blast
  with setNodeStatus_result[OF at r] updateNodeStatus_unfold[OF at m codes] ns
  show "\<exists>els'. updateNodeStatus nodeId elements nodeData elemIndexes = Inr els' \<and>
                    elem_at els' elemIndexes nodeId = Some (Node (g\<lparr>nodeStatus := ready\<rparr>))"
    by simp
next
  assume ty: "node_type g = gate_or"
  have ns: "newStatusOf (node_type g) (nodeStatus g) [Some 0, Some 1, Some 2] = Some completed"
    by (simp add: ty Math_min_def COURSE_STATUSES_def)
  from setNodeStatus_total[OF at m ok] obtain els' where
    r: "setNodeStatus nodeId (Some completed) elements nodeData elemIndexes = Inr els'" by blast
  with setNodeStatus_result[OF at r] updateNodeStatus_unfold[OF at m codes] ns
  show "\<exists>els'. updateNodeStatus nodeId elements nodeData elemIndexes = Inr els' \<and>
                    elem_at els' elemIndexes nodeId = Some (Node (g\<lparr>nodeStatus := completed\<rparr>))"
    by simp
qed (simp_all add: COURSE_STATUS_CODES_simps)

text \<open>
  Claim C6. A \<^verbatim>\<open>course\<close> node without incoming edges keeps the status
  \<^verbatim>\<open>enrolled\<close>, and likewise \<^verbatim>\<open>completed\<close>; from any other status it becomes
  \<^verbatim>\<open>ready\<close>. The update returns whenever the outgoing edges of the node are edges of
  the list.
\<close>

theorem course_without_prerequisites:
  assumes at: "elem_at elements elemIndexes nodeId = Some (Node n)"
    and ty: "node_type n = course"
    and m: "map_of nodeData nodeId = Some m"
    and inc: "incomingEdges m = []"
    and ok: "edges_resolve elements elemIndexes (outgoingEdges m)"
  shows "\<exists>els'. updateNodeStatus nodeId elements nodeData elemIndexes = Inr els' \<and>
           elem_at els' elemIndexes nodeId =
             Some (Node (n\<lparr>nodeStatus :=
               (if nodeStatus n = enrolled \<or> nodeStatus n = completed then nodeStatus n
                else ready)\<rparr>))"
proof -
  let ?s = "if nodeStatus n = enrolled \<or> nodeStatus n = completed then nodeStatus n else ready"
  have codes: "map_err getEdgeStatus (map (elem_at elements elemIndexes) (incomingEdges m)) = Inr []"
    by (simp add: inc)
  have ns: "newStatusOf (node_type n) (nodeStatus n) [] = Some ?s"
    by (auto simp: ty Math_max_def)
  from setNodeStatus_total[OF at m ok] obtain els' where
    r: "setNodeStatus nodeId (Some ?s) elements nodeData elemIndexes = Inr els'" by blast
  with setNodeStatus_result[OF at r] updateNodeStatus_unfold[OF at m codes] ns
  show ?thesis by simp
qed

lemma updateNodeStatus_changes:
  assumes res: "updateNodeStatus nodeId elements nodeData elemIndexes = Inr elements'"
  shows "length elements' = length elements \<and>
     (\<forall>j < length elements.
        (case elements ! j of
           Node n \<Rightarrow>
             (\<exists>s. elements' ! j = Node (n\<lparr>nodeStatus := s\<rparr>)) \<and>
             (map_of elemIndexes nodeId \<noteq> Some j \<longrightarrow> elements' ! j = elements ! j)
         | Edge e \<Rightarrow>
             (\<exists>s. elements' ! j = Edge (e\<lparr>className := s\<rparr>)) \<and>
             ((\<forall>m. map_of nodeData nodeId = Some m \<longrightarrow>
                  (\<forall>k \<in> set (outgoingEdges m). map_of elemIndexes k \<noteq> Some j)) \<longrightarrow>
              elements' ! j = elements ! j)))"
proof -
  from res obtain n where at: "elem_at elements elemIndexes nodeId = Some (Node n)"
    by (auto simp: updateNodeStatus_def split: option.splits element.splits)
  from res at obtain m where m: "map_of nodeData nodeId = Some m"
    by (auto simp: updateNodeStatus_def Let_def split: option.splits)
  from res at m obtain codes where
    codes: "map_err getEdgeStatus (map (elem_at elements elemIndexes) (incomingEdges m)) = Inr codes"
    by (auto simp: updateNodeStatus_def Let_def split: sum.splits)
  from res updateNodeStatus_unfold[OF at m codes] obtain s where
    s: "setNodeStatus nodeId (Some s) elements nodeData elemIndexes = Inr elements'"
    by (cases "newStatusOf (node_type n) (nodeStatus n) codes")
       (auto simp: setNodeStatus_def at m)
  from elem_at_SomeD[OF at] obtain i where
    i: "map_of elemIndexes nodeId = Some i" "i < length elements" "elements ! i = Node n"
    by blast
  let ?els1 = "elements[i := Node (n\<lparr>nodeStatus := s\<rparr>)]"
  from s at m i have sec: "setEdgeClasses (outgoingEdges m) s ?els1 elemIndexes = Inr elements'"
    by (simp add: setNodeStatus_def)
  from setEdgeClasses_frame[OF sec] have len: "length elements' = length elements"
    and fr: "\<And>j. j < length elements \<Longrightarrow> elements' ! j = ?els1 ! j \<or>
        (\<exists>e. ?els1 ! j = Edge e \<and> elements' ! j = Edge (e\<lparr>className := s\<rparr>)
             \<and> (\<exists>k \<in> set (outgoingEdges m). map_of elemIndexes k = Some j))"
    by auto
  show ?thesis
  proof (intro conjI allI impI)
    show "length elements' = length elements" by (rule len)
  next
    fix j assume j: "j < length elements"
    show "case elements ! j of
           Node n \<Rightarrow>
             (\<exists>s. elements' ! j = Node (n\<lparr>nodeStatus := s\<rparr>)) \<and>
             (map_of elemIndexes nodeId \<noteq> Some j \<longrightarrow> elements' ! j = elements ! j)
         | Edge e \<Rightarrow>
             (\<exists>s. elements' ! j = Edge (e\<lparr>className := s\<rparr>)) \<and>
             ((\<forall>m. map_of nodeData nodeId = Some m \<longrightarrow>
                  (\<forall>k \<in> set (outgoingEdges m). map_of elemIndexes k \<noteq> Some j)) \<longrightarrow>
              elements' ! j = elements ! j)"
    proof (cases "elements ! j")
      case (Node x)
      have "(\<exists>s. elements' ! j = Node (x\<lparr>nodeStatus := s\<rparr>)) \<and>
             (map_of elemIndexes nodeId \<noteq> Some j \<longrightarrow> elements' ! j = elements ! j)"
      proof (cases "j = i")
        case True
        from fr[OF j] True i have "elements' ! j = Node (n\<lparr>nodeStatus := s\<rparr>)" by simp
        moreover from True i Node have "x = n" by simp
        ultimately show ?thesis using True i by blast
      next
        case False
        from fr[OF j] False Node have "elements' ! j = Node x" by simp
        moreover have "Node x = Node (x\<lparr>nodeStatus := nodeStatus x\<rparr>)" by simp
        ultimately show ?thesis using Node by metis
      qed
      with Node show ?thesis by simp
    next
      case (Edge e)
      with i have ne: "j \<noteq> i" by auto
      from fr[OF j] ne Edge have alt: "elements' ! j = Edge e \<or>
          (elements' ! j = Edge (e\<lparr>className := s\<rparr>) \<and> (\<exists>k \<in> set (outgoingEdges m). map_of elemIndexes k = Some j))"
        by simp
      have e_self: "Edge e = Edge (e\<lparr>className := className e\<rparr>)" by simp
      have "(\<exists>s. elements' ! j = Edge (e\<lparr>className := s\<rparr>)) \<and>
             ((\<forall>m. map_of nodeData nodeId = Some m \<longrightarrow>
                  (\<forall>k \<in> set (outgoingEdges m). map_of elemIndexes k \<noteq> Some j)) \<longrightarrow>
              elements' ! j = elements ! j)"
      proof
        from alt e_self show "\<exists>s. elements' ! j = Edge (e\<lparr>className := s\<rparr>)" by metis
      next
        show "(\<forall>m. map_of nodeData nodeId = Some m \<longrightarrow>
                  (\<forall>k \<in> set (outgoingEdges m). map_of elemIndexes k \<noteq> Some j)) \<longrightarrow>
              elements' ! j = elements ! j"
        proof
          assume "\<forall>m. map_of nodeData nodeId = Some m \<longrightarrow>
                  (\<forall>k \<in> set (outgoingEdges m). map_of elemIndexes k \<noteq> Some j)"
          with m have "\<forall>k \<in> set (outgoingEdges m). map_of elemIndexes k \<noteq> Some j" by simp
          with alt have "elements' ! j = Edge e" by auto
          with Edge show "elements' ! j = elements ! j" by simp
        qed
      qed
      with Edge show ?thesis by simp
    qed
  qed
qed

lemma loop_run_updates:
  "numNodes \<le> length elements \<Longrightarrow>
   updateAllNodes_loop i numNodes elements updated nodeData elemIndexes =
     run_updates (map elem_id (take (numNodes - i) (drop i elements))) updated nodeData elemIndexes"
proof (induction i numNodes elements updated nodeData elemIndexes rule: updateAllNodes_loop.induct)
  case (1 i numNodes elements updated nodeData elemIndexes)
  show ?case
  proof (cases "i < numNodes")
    case False
    then show ?thesis by (simp add: updateAllNodes_loop.simps[of i])
  next
    case True
    with "1.prems" have il: "i < length elements" by simp
    from True have d: "numNodes - i = Suc (numNodes - (i + 1))" by simp
    have tk: "take (numNodes - i) (drop i elements) =
              elements ! i # take (numNodes - (i + 1)) (drop (i + 1) elements)"
      using il by (simp add: d Cons_nth_drop_Suc[symmetric] del: drop_Suc)
    show ?thesis
    proof (cases "updateNodeStatus (elem_id (elements ! i)) updated nodeData elemIndexes")
      case (Inl e)
      with True il show ?thesis by (simp add: updateAllNodes_loop.simps[of i] tk)
    next
      case (Inr u)
      with True il "1.IH"[OF True il Inr "1.prems"] show ?thesis
        by (simp add: updateAllNodes_loop.simps[of i] tk)
    qed
  qed
qed

lemma updateNodeStatus_no_meta:
  "map_of nodeData k = None \<Longrightarrow> isl (updateNodeStatus k els nodeData idx)"
  by (auto simp: updateNodeStatus_def split: option.splits element.splits)

lemma updateNodeStatus_length:
  "updateNodeStatus k els nodeData idx = Inr els' \<Longrightarrow> length els' = length els"
  using updateNodeStatus_changes by blast

lemma run_updates_no_meta:
  "k \<in> set ks \<Longrightarrow> map_of nodeData k = None \<Longrightarrow> isl (run_updates ks els nodeData idx)"
proof (induction ks arbitrary: els)
  case Nil
  then show ?case by simp
next
  case (Cons a ks)
  show ?case
  proof (cases "updateNodeStatus a els nodeData idx")
    case (Inl e)
    then show ?thesis by simp
  next
    case (Inr u)
    with updateNodeStatus_no_meta[of nodeData a els idx] Cons.prems have "k \<noteq> a" by auto
    with Cons Inr show ?thesis by simp
  qed
qed

lemma nodes_before_edges_take:
  "nodes_before_edges els \<longleftrightarrow> (\<forall>e \<in> set (take (length (filter isNode els)) els). isNode e)"
proof (induction els)
  case Nil
  then show ?case by (simp add: nodes_before_edges_def)
next
  case (Cons x xs)
  show ?case
  proof (cases x)
    case (Node n)
    with Cons show ?thesis by (simp add: nodes_before_edges_def)
  next
    case (Edge e)
    show ?thesis
    proof (cases "filter isNode xs = []")
      case True
      then have "\<forall>y \<in> set xs. isEdge y"
        by (metis filter_empty_conv isEdge.elims(3) isNode.simps(1))
      then have "filter isEdge xs = xs" by simp
      with True Edge show ?thesis by (simp add: nodes_before_edges_def)
    next
      case False
      then obtain y ys where y: "filter isNode xs = y # ys" by (cases "filter isNode xs") auto
      then have "isNode y" by (metis filter_eq_ConsD)
      with y Edge have "\<not> nodes_before_edges (x # xs)"
        by (auto simp: nodes_before_edges_def)
      moreover from y Edge have "\<not> (\<forall>e \<in> set (take (length (filter isNode (x # xs))) (x # xs)). isNode e)"
        by simp
      ultimately show ?thesis by simp
    qed
  qed
qed

lemma take_nodes:
  "nodes_before_edges els \<Longrightarrow> take (length (filter isNode els)) els = filter isNode els"
  by (metis append_eq_conv_conj nodes_before_edges_def)

lemma sorted_split:
  fixes f :: "'a \<Rightarrow> enat"
  assumes "sorted (map f xs)" and "\<And>x. P x \<longleftrightarrow> f x < \<infinity>"
  shows "xs = filter P xs @ filter (\<lambda>x. \<not> P x) xs"
  using assms(1)
proof (induction xs)
  case Nil
  then show ?case by simp
next
  case (Cons x xs)
  then have IH: "xs = filter P xs @ filter (\<lambda>x. \<not> P x) xs" by simp
  show ?case
  proof (cases "P x")
    case True
    with IH show ?thesis by simp
  next
    case False
    then have "f x = \<infinity>" using assms(2) by simp
    with Cons.prems have "\<forall>y \<in> set xs. f y = \<infinity>" by auto
    then have "\<forall>y \<in> set xs. \<not> P y" using assms(2) by simp
    then have "filter P xs = []" "filter (\<lambda>x. \<not> P x) xs = xs" by (simp_all)
    with False show ?thesis by simp
  qed
qed

lemma isEdge_not_isNode: "isEdge = (\<lambda>x. \<not> isNode x)"
  by (rule ext) (case_tac x, simp_all)

lemma sortElementsByDepth_nodes_first:
  assumes "sortElementsByDepth unsorted nodeData = Inr elements"
  shows "nodes_before_edges elements"
proof -
  from assms have e: "elements = sort_key (sort_value nodeData) unsorted"
    by (simp add: sortElementsByDepth_def split: if_splits)
  have "sorted (map (sort_value nodeData) elements)" by (simp add: e)
  moreover have "\<And>x. isNode x \<longleftrightarrow> sort_value nodeData x < \<infinity>"
    by (simp add: sort_value_def)
  ultimately have "elements = filter isNode elements @ filter (\<lambda>x. \<not> isNode x) elements"
    by (rule sorted_split)
  then show ?thesis by (simp add: nodes_before_edges_def isEdge_not_isNode)
qed

lemma updateNodeStatus_kinds:
  assumes "updateNodeStatus k els nd idx = Inr els'"
  shows "length els' = length els \<and> (\<forall>j < length els. isNode (els' ! j) = isNode (els ! j))"
proof -
  note fr = updateNodeStatus_changes[OF assms]
  show ?thesis
  proof (intro conjI allI impI)
    show "length els' = length els" using fr by simp
  next
    fix j assume j: "j < length els"
    with fr have c: "case els ! j of
           Node n \<Rightarrow> (\<exists>s. els' ! j = Node (n\<lparr>nodeStatus := s\<rparr>)) \<and>
             (map_of idx k \<noteq> Some j \<longrightarrow> els' ! j = els ! j)
         | Edge e \<Rightarrow> (\<exists>s. els' ! j = Edge (e\<lparr>className := s\<rparr>)) \<and>
             ((\<forall>m. map_of nd k = Some m \<longrightarrow>
                  (\<forall>k \<in> set (outgoingEdges m). map_of idx k \<noteq> Some j)) \<longrightarrow>
              els' ! j = els ! j)" by blast
    show "isNode (els' ! j) = isNode (els ! j)"
    proof (cases "els ! j")
      case (Node n)
      with c obtain s where "els' ! j = Node (n\<lparr>nodeStatus := s\<rparr>)" by auto
      with Node show ?thesis by simp
    next
      case (Edge e)
      with c obtain s where "els' ! j = Edge (e\<lparr>className := s\<rparr>)" by auto
      with Edge show ?thesis by simp
    qed
  qed
qed

lemma elem_at_kind:
  assumes "length els' = length els" "\<forall>j < length els. isNode (els' ! j) = isNode (els ! j)"
  shows "(case elem_at els' idx k of Some (Node n) \<Rightarrow> True | _ \<Rightarrow> False) =
         (case elem_at els idx k of Some (Node n) \<Rightarrow> True | _ \<Rightarrow> False)"
    and "(case elem_at els' idx k of Some (Edge n) \<Rightarrow> True | _ \<Rightarrow> False) =
         (case elem_at els idx k of Some (Edge n) \<Rightarrow> True | _ \<Rightarrow> False)"
proof -
  show "(case elem_at els' idx k of Some (Node n) \<Rightarrow> True | _ \<Rightarrow> False) =
         (case elem_at els idx k of Some (Node n) \<Rightarrow> True | _ \<Rightarrow> False)"
  proof (cases "map_of idx k")
    case None
    then show ?thesis by (simp add: elem_at_def)
  next
    case (Some j)
    show ?thesis
    proof (cases "j < length els")
      case True
      with assms have "isNode (els' ! j) = isNode (els ! j)" by simp
      with True Some assms(1) show ?thesis
        by (cases "els ! j"; cases "els' ! j") (simp_all add: elem_at_def)
    next
      case False
      with Some assms(1) show ?thesis by (simp add: elem_at_def)
    qed
  qed
  show "(case elem_at els' idx k of Some (Edge n) \<Rightarrow> True | _ \<Rightarrow> False) =
         (case elem_at els idx k of Some (Edge n) \<Rightarrow> True | _ \<Rightarrow> False)"
  proof (cases "map_of idx k")
    case None
    then show ?thesis by (simp add: elem_at_def)
  next
    case (Some j)
    show ?thesis
    proof (cases "j < length els")
      case True
      with assms have "isNode (els' ! j) = isNode (els ! j)" by simp
      with True Some assms(1) show ?thesis
        by (cases "els ! j"; cases "els' ! j") (simp_all add: elem_at_def)
    next
      case False
      with Some assms(1) show ?thesis by (simp add: elem_at_def)
    qed
  qed
qed

lemma consistent_kinds:
  assumes c: "consistent els nd idx"
    and k: "length els' = length els" "\<forall>j < length els. isNode (els' ! j) = isNode (els ! j)"
  shows "consistent els' nd idx"
  unfolding consistent_def edges_resolve_def
proof (intro ballI)
  fix km assume km: "km \<in> set nd"
  obtain key m where [simp]: "km = (key, m)" by (cases km)
  from c km have P: "(case elem_at els idx key of Some (Node n) \<Rightarrow> True | _ \<Rightarrow> False) \<and>
       (\<forall>k \<in> set (incomingEdges m). case elem_at els idx k of Some (Edge e) \<Rightarrow> True | _ \<Rightarrow> False) \<and>
       (\<forall>k \<in> set (outgoingEdges m). case elem_at els idx k of Some (Edge e) \<Rightarrow> True | _ \<Rightarrow> False)"
    unfolding consistent_def edges_resolve_def by auto
  have "(case elem_at els' idx key of Some (Node n) \<Rightarrow> True | _ \<Rightarrow> False) \<and>
       (\<forall>k \<in> set (incomingEdges m). case elem_at els' idx k of Some (Edge e) \<Rightarrow> True | _ \<Rightarrow> False) \<and>
       (\<forall>k \<in> set (outgoingEdges m). case elem_at els' idx k of Some (Edge e) \<Rightarrow> True | _ \<Rightarrow> False)"
    using P by (simp add: elem_at_kind[OF k])
  then show "case km of (k, m) \<Rightarrow>
          (case elem_at els' idx k of Some (Node n) \<Rightarrow> True | _ \<Rightarrow> False) \<and>
          (\<forall>k \<in> set (incomingEdges m). case elem_at els' idx k of Some (Edge e) \<Rightarrow> True | _ \<Rightarrow> False) \<and>
          (\<forall>k \<in> set (outgoingEdges m). case elem_at els' idx k of Some (Edge e) \<Rightarrow> True | _ \<Rightarrow> False)"
    by simp
qed

lemma getEdgeStatus_codes:
  assumes "edges_resolve els idx ids"
  shows "\<exists>codes. map_err getEdgeStatus (map (elem_at els idx) ids) = Inr codes \<and>
           (\<forall>c \<in> set codes. \<exists>x. c = Some x \<and> x < 6)"
  using assms
proof (induction ids)
  case Nil
  then show ?case by simp
next
  case (Cons k ks)
  from Cons.prems have "edges_resolve els idx ks" by (simp add: edges_resolve_def)
  from Cons.IH[OF this] obtain codes where
    codes: "map_err getEdgeStatus (map (elem_at els idx) ks) = Inr codes"
           "\<forall>c \<in> set codes. \<exists>x. c = Some x \<and> x < 6" by blast
  from Cons.prems obtain e where e: "elem_at els idx k = Some (Edge e)"
    by (auto simp: edges_resolve_def split: option.splits element.splits)
  have lt: "COURSE_STATUS_CODES s < 6" for s
    by (cases s) (simp_all add: COURSE_STATUS_CODES_simps)
  obtain x where x: "getEdgeStatus (Some (Edge e)) = Inr (Some x)" "x < 6"
    using lt by (auto simp: Let_def)
  with e codes show ?case by auto
qed

lemma fold_max_bound: "\<forall>x \<in> set xs. x < (n::nat) \<Longrightarrow> a < n \<Longrightarrow> fold max xs a < n"
  by (induction xs arbitrary: a) auto

lemma fold_min_bound: "a < (n::nat) \<Longrightarrow> fold min xs a < n"
  by (induction xs arbitrary: a) (auto simp: min_def)

lemma newStatusOf_defined:
  assumes "\<forall>c \<in> set codes. \<exists>x. c = Some x \<and> x < 6"
  shows "\<exists>s. newStatusOf ty cur codes = Some s"
proof -
  from assms have nn: "None \<notin> set codes" by auto
  from assms have vals: "\<forall>x \<in> set (map the codes). x < 6" by auto
  have mx: "fold max (map the codes) 0 < 6" using vals by (intro fold_max_bound) simp_all
  have mn: "codes \<noteq> [] \<Longrightarrow> fold min (map the (tl codes)) (the (hd codes)) < 6"
    using vals by (intro fold_min_bound) (cases codes, auto)
  have len6: "length COURSE_STATUSES = 6" by (simp add: COURSE_STATUSES_def)
  show ?thesis
  proof (cases ty)
    case course
    then show ?thesis using nn by (simp add: Math_max_def Let_def)
  next
    case gate_and
    then show ?thesis using nn mx by (simp add: Math_max_def Let_def len6)
  next
    case gate_or
    then show ?thesis using nn mn by (cases "codes = []") (simp_all add: Math_min_def Let_def len6)
  qed
qed

lemma updateNodeStatus_total:
  assumes c: "consistent els nd idx" and k: "k \<in> fst ` set nd"
  shows "\<exists>els'. updateNodeStatus k els nd idx = Inr els'"
proof -
  from k obtain m where m: "map_of nd k = Some m"
    by (metis domD dom_map_of_conv_image_fst)
  then have km: "(k, m) \<in> set nd" by (rule map_of_SomeD)
  with c have P: "(case elem_at els idx k of Some (Node n) \<Rightarrow> True | _ \<Rightarrow> False) \<and>
        edges_resolve els idx (incomingEdges m) \<and> edges_resolve els idx (outgoingEdges m)"
    unfolding consistent_def by blast
  then have inc: "edges_resolve els idx (incomingEdges m)"
    and out: "edges_resolve els idx (outgoingEdges m)" by simp_all
  from P obtain n where at: "elem_at els idx k = Some (Node n)"
    by (cases "elem_at els idx k") (auto split: element.splits)
  from getEdgeStatus_codes[OF inc] obtain codes where
    codes: "map_err getEdgeStatus (map (elem_at els idx) (incomingEdges m)) = Inr codes"
           "\<forall>c \<in> set codes. \<exists>x. c = Some x \<and> x < 6" by blast
  from newStatusOf_defined[OF codes(2)] obtain s where
    s: "newStatusOf (node_type n) (nodeStatus n) codes = Some s" by blast
  from setNodeStatus_total[OF at m out] obtain els' where
    "setNodeStatus k (Some s) els nd idx = Inr els'" by blast
  with updateNodeStatus_unfold[OF at m codes(1)] s show ?thesis by simp
qed

lemma run_updates_total:
  assumes "consistent els nd idx" and "set ks \<subseteq> fst ` set nd"
  shows "\<exists>els'. run_updates ks els nd idx = Inr els'"
  using assms
proof (induction ks arbitrary: els)
  case Nil
  then show ?case by simp
next
  case (Cons k ks)
  from Cons.prems have "k \<in> fst ` set nd" by simp
  from updateNodeStatus_total[OF Cons.prems(1) this] obtain u where
    u: "updateNodeStatus k els nd idx = Inr u" by blast
  from updateNodeStatus_kinds[OF u] have "length u = length els"
    "\<forall>j < length els. isNode (u ! j) = isNode (els ! j)" by blast+
  with Cons.prems(1) have "consistent u nd idx" by (rule consistent_kinds)
  from Cons.IH[OF this] Cons.prems(2) u show ?case by simp
qed

text \<open>
  Claim C10. With metadata for exactly the nodes of a list of elements with distinct
  ids, \<^verbatim>\<open>nodeData.size\<close> is the number of nodes, and \<^verbatim>\<open>updateAllNodes\<close> is
  \<^verbatim>\<open>updateNodeStatus\<close> for the ids of the first \<^verbatim>\<open>nodeData.size\<close> elements, in
  order, and for no other. When some node stands behind an edge, one of these ids is
  the id of an edge, which has no metadata, and the run ends in an error. When the
  nodes stand before the edges, the ids are those of the nodes, each once, and the run
  returns if metadata and indexes fit the elements. \<^verbatim>\<open>sortElementsByDepth\<close> puts
  the nodes before the edges.
\<close>

theorem updateAllNodes_visits:
  assumes keys: "set (map fst nodeData) = set (map elem_id (filter isNode elements))"
    and dist: "distinct (map elem_id elements)"
  shows "map_size nodeData = length (filter isNode elements) \<and>
    updateAllNodes elements nodeData elemIndexes =
      run_updates (map elem_id (take (map_size nodeData) elements)) elements nodeData elemIndexes \<and>
    (\<not> nodes_before_edges elements \<longrightarrow> isl (updateAllNodes elements nodeData elemIndexes)) \<and>
    (nodes_before_edges elements \<longrightarrow>
       map elem_id (take (map_size nodeData) elements) = map elem_id (filter isNode elements) \<and>
       distinct (map elem_id (filter isNode elements)) \<and>
       (consistent elements nodeData elemIndexes \<longrightarrow>
          \<not> isl (updateAllNodes elements nodeData elemIndexes))) \<and>
    (\<forall>unsorted. sortElementsByDepth unsorted nodeData = Inr elements \<longrightarrow>
       nodes_before_edges elements)"
proof -
  have dn: "distinct (map elem_id (filter isNode elements))"
    using dist by (rule distinct_map_filter)
  have "map_size nodeData = card (set (map fst nodeData))"
    by (simp add: map_size_def length_remdups_card_conv)
  also have "\<dots> = card (set (map elem_id (filter isNode elements)))" by (simp only: keys)
  also have "\<dots> = length (map elem_id (filter isNode elements))"
    using dn by (rule distinct_card)
  finally have sz: "map_size nodeData = length (filter isNode elements)" by simp
  have le: "map_size nodeData \<le> length elements" by (simp add: sz)
  have run: "updateAllNodes elements nodeData elemIndexes =
      run_updates (map elem_id (take (map_size nodeData) elements)) elements nodeData elemIndexes"
    unfolding updateAllNodes_def using loop_run_updates[OF le, of 0] by simp
  have bad: "isl (updateAllNodes elements nodeData elemIndexes)" if nb: "\<not> nodes_before_edges elements"
  proof -
    from nb obtain x where x: "x \<in> set (take (map_size nodeData) elements)" "\<not> isNode x"
      by (auto simp: nodes_before_edges_take sz)
    then have xin: "x \<in> set elements" by (meson in_set_takeD)
    have "elem_id x \<notin> set (map elem_id (filter isNode elements))"
    proof
      assume "elem_id x \<in> set (map elem_id (filter isNode elements))"
      then obtain y where y: "y \<in> set elements" "isNode y" "elem_id y = elem_id x" by auto
      moreover from dist have "inj_on elem_id (set elements)" by (simp add: distinct_map)
      ultimately have "x = y" using xin by (simp add: inj_on_def)
      with x y show False by simp
    qed
    with keys have "map_of nodeData (elem_id x) = None"
      by (metis map_of_eq_None_iff set_map)
    moreover from x have "elem_id x \<in> set (map elem_id (take (map_size nodeData) elements))" by simp
    ultimately show ?thesis unfolding run by (rule run_updates_no_meta[rotated])
  qed
  have good: "map elem_id (take (map_size nodeData) elements) = map elem_id (filter isNode elements)"
    if "nodes_before_edges elements"
    using that by (simp add: sz take_nodes)
  have fine: "\<not> isl (updateAllNodes elements nodeData elemIndexes)"
    if nb: "nodes_before_edges elements" and c: "consistent elements nodeData elemIndexes"
  proof -
    have "set (map elem_id (take (map_size nodeData) elements)) \<subseteq> fst ` set nodeData"
      using good[OF nb] keys by simp
    from run_updates_total[OF c this] show ?thesis unfolding run by auto
  qed
  show ?thesis
  proof (intro conjI impI allI)
    show "map_size nodeData = length (filter isNode elements)" by (rule sz)
    show "updateAllNodes elements nodeData elemIndexes =
      run_updates (map elem_id (take (map_size nodeData) elements)) elements nodeData elemIndexes"
      by (rule run)
    show "isl (updateAllNodes elements nodeData elemIndexes)" if "\<not> nodes_before_edges elements"
      using that by (rule bad)
    show "map elem_id (take (map_size nodeData) elements) = map elem_id (filter isNode elements)"
      if "nodes_before_edges elements" using that by (rule good)
    show "distinct (map elem_id (filter isNode elements))" by (rule dn)
    show "\<not> isl (updateAllNodes elements nodeData elemIndexes)"
      if "nodes_before_edges elements" "consistent elements nodeData elemIndexes"
      using that by (rule fine)
    show "nodes_before_edges elements" if "sortElementsByDepth unsorted nodeData = Inr elements"
      for unsorted using that by (rule sortElementsByDepth_nodes_first)
  qed
qed

text \<open>
  Claim C9. A call of \<^verbatim>\<open>updateNodeStatus\<close> that returns keeps the length of the
  array; a node changes at most in its status, and only at the index of the given
  id; an edge changes at most in its class, and only at the index of an outgoing edge
  of the given id.
\<close>

theorem updateNodeStatus_frame:
  assumes "updateNodeStatus nodeId elements nodeData elemIndexes = Inr elements'"
  shows "length elements' = length elements \<and>
     (\<forall>j < length elements.
        (case elements ! j of
           Node n \<Rightarrow>
             (\<exists>s. elements' ! j = Node (n\<lparr>nodeStatus := s\<rparr>)) \<and>
             (map_of elemIndexes nodeId \<noteq> Some j \<longrightarrow> elements' ! j = elements ! j)
         | Edge e \<Rightarrow>
             (\<exists>s. elements' ! j = Edge (e\<lparr>className := s\<rparr>)) \<and>
             ((\<forall>m. map_of nodeData nodeId = Some m \<longrightarrow>
                  (\<forall>k \<in> set (outgoingEdges m). map_of elemIndexes k \<noteq> Some j)) \<longrightarrow>
              elements' ! j = elements ! j)))"
  using assms by (rule updateNodeStatus_changes)

subsection \<open>The example flow\<close>

lemmas gate_flow_defs = gate_flow_def gate_flow_data_def gate_flow_indexes_def gate_meta_def
  mk_meta_def example_course_def example_edge_def example_gate_def newCourseNode_def
  newEdge_def newConditionalNode_def edgeArrowId_def elem_at_def ZERO_POSITION_def

lemma gate_flow_gate:
  "elem_at (gate_flow ty) gate_flow_indexes ''GATE-g1'' = Some (Node (example_gate ty))"
  by (simp add: gate_flow_def gate_flow_indexes_def elem_at_def)

lemma gate_flow_meta: "map_of gate_flow_data ''GATE-g1'' = Some gate_meta"
  by (simp add: gate_flow_data_def)

lemma gate_flow_codes:
  "map_err getEdgeStatus (map (elem_at (gate_flow ty) gate_flow_indexes) (incomingEdges gate_meta))
     = Inr [Some 0, Some 1, Some 2]"
  by (simp add: gate_flow_defs COURSE_STATUS_CODES_simps)

lemma gate_flow_outgoing:
  "edges_resolve (gate_flow ty) gate_flow_indexes (outgoingEdges gate_meta)"
  by (simp add: edges_resolve_def gate_flow_defs)

lemma gate_flow_update:
  "updateNodeStatus ''GATE-g1'' (gate_flow gate_and) gate_flow_data gate_flow_indexes =
     Inr ((gate_flow gate_and)
            [3 := Node ((example_gate gate_and)\<lparr>nodeStatus := ready\<rparr>),
             8 := example_edge ''GATE-g1'' ''CSE 373'' ready])"
  by (simp add: gate_flow_defs COURSE_STATUS_CODES_simps updateNodeStatus_def setNodeStatus_def
       Math_max_def COURSE_STATUSES_def)

text \<open>
  Claim C1 as stated fails on the example flow: the incoming codes of the
  \<^verbatim>\<open>and\<close> gate are 0, 1 and 2, and its new status is \<^verbatim>\<open>ready\<close>, not
  \<^verbatim>\<open>one-away\<close>.
\<close>

theorem and_gate_one_away_counterexample:
  "map_err getEdgeStatus
     (map (elem_at (gate_flow gate_and) gate_flow_indexes) (incomingEdges gate_meta))
     = Inr [Some 0, Some 1, Some 2] \<and>
   \<not> isl (updateNodeStatus ''GATE-g1'' (gate_flow gate_and) gate_flow_data gate_flow_indexes) \<and>
   status_in
     (projr (updateNodeStatus ''GATE-g1'' (gate_flow gate_and) gate_flow_data gate_flow_indexes))
     gate_flow_indexes ''GATE-g1'' = Some ready \<and>
   ready \<noteq> one_away \<and> COURSE_STATUS_CODES one_away \<noteq> 2"
  by (simp add: gate_flow_codes gate_flow_update status_in_def COURSE_STATUS_CODES_simps)
     (simp add: gate_flow_defs)

theorem gate_status_codes_012_witness:
  "elem_at (gate_flow gate_and) gate_flow_indexes ''GATE-g1'' = Some (Node (example_gate gate_and)) \<and>
   elem_at (gate_flow gate_or) gate_flow_indexes ''GATE-g1'' = Some (Node (example_gate gate_or)) \<and>
   map_of gate_flow_data ''GATE-g1'' = Some gate_meta \<and>
   map_err getEdgeStatus
     (map (elem_at (gate_flow gate_and) gate_flow_indexes) (incomingEdges gate_meta))
     = Inr [Some 0, Some 1, Some 2] \<and>
   edges_resolve (gate_flow gate_and) gate_flow_indexes (outgoingEdges gate_meta) \<and>
   (\<exists>els'. updateNodeStatus ''GATE-g1'' (gate_flow gate_and) gate_flow_data gate_flow_indexes
             = Inr els' \<and>
           elem_at els' gate_flow_indexes ''GATE-g1''
             = Some (Node ((example_gate gate_and)\<lparr>nodeStatus := ready\<rparr>))) \<and>
   (\<exists>els'. updateNodeStatus ''GATE-g1'' (gate_flow gate_or) gate_flow_data gate_flow_indexes
             = Inr els' \<and>
           elem_at els' gate_flow_indexes ''GATE-g1''
             = Some (Node ((example_gate gate_or)\<lparr>nodeStatus := completed\<rparr>)))"
proof -
  have ta: "node_type (example_gate gate_and) = gate_and"
    and to: "node_type (example_gate gate_or) = gate_or"
    by (simp_all add: example_gate_def newConditionalNode_def)
  from gate_status_codes_012[OF gate_flow_gate gate_flow_meta gate_flow_codes gate_flow_outgoing,
      of gate_and] ta
  have a: "\<exists>els'. updateNodeStatus ''GATE-g1'' (gate_flow gate_and) gate_flow_data gate_flow_indexes
             = Inr els' \<and>
           elem_at els' gate_flow_indexes ''GATE-g1''
             = Some (Node ((example_gate gate_and)\<lparr>nodeStatus := ready\<rparr>))" by blast
  from gate_status_codes_012[OF gate_flow_gate gate_flow_meta gate_flow_codes gate_flow_outgoing,
      of gate_or] to
  have b: "\<exists>els'. updateNodeStatus ''GATE-g1'' (gate_flow gate_or) gate_flow_data gate_flow_indexes
             = Inr els' \<and>
           elem_at els' gate_flow_indexes ''GATE-g1''
             = Some (Node ((example_gate gate_or)\<lparr>nodeStatus := completed\<rparr>))" by blast
  from a b gate_flow_gate gate_flow_meta gate_flow_codes gate_flow_outgoing show ?thesis
    by blast
qed

theorem course_without_prerequisites_witness:
  "elem_at (gate_flow gate_and) gate_flow_indexes ''CSE 143''
     = Some (example_course ''CSE 143'' enrolled) \<and>
   map_of gate_flow_data ''CSE 143''
     = Some (mk_meta 0 [] [] [''CSE 143 -> GATE-g1''] [''GATE-g1'']) \<and>
   (\<exists>els'. updateNodeStatus ''CSE 143'' (gate_flow gate_and) gate_flow_data gate_flow_indexes
             = Inr els' \<and>
           elem_at els' gate_flow_indexes ''CSE 143'' = Some (example_course ''CSE 143'' enrolled))"
proof -
  let ?n = "(newCourseNode \<lparr> course_id = ''CSE 143'', prerequisite = [] \<rparr>)\<lparr> nodeStatus := enrolled \<rparr>"
  let ?m = "mk_meta 0 [] [] [''CSE 143 -> GATE-g1''] [''GATE-g1'']"
  have at: "elem_at (gate_flow gate_and) gate_flow_indexes ''CSE 143'' = Some (Node ?n)"
    by (simp add: gate_flow_def gate_flow_indexes_def elem_at_def example_course_def)
  have ty: "node_type ?n = course" by (simp add: newCourseNode_def)
  have m: "map_of gate_flow_data ''CSE 143'' = Some ?m" by (simp add: gate_flow_data_def)
  have inc: "incomingEdges ?m = []" by (simp add: mk_meta_def)
  have ok: "edges_resolve (gate_flow gate_and) gate_flow_indexes (outgoingEdges ?m)"
    by (simp add: edges_resolve_def gate_flow_defs)
  have st: "?n\<lparr>nodeStatus := (if nodeStatus ?n = enrolled \<or> nodeStatus ?n = completed
                                  then nodeStatus ?n else ready)\<rparr> = ?n" by simp
  from course_without_prerequisites[OF at ty m inc ok] st at m show ?thesis
    by (simp add: example_course_def)
qed

theorem updateNodeStatus_frame_witness:
  "updateNodeStatus ''GATE-g1'' (gate_flow gate_and) gate_flow_data gate_flow_indexes =
     Inr ((gate_flow gate_and)
            [3 := Node ((example_gate gate_and)\<lparr>nodeStatus := ready\<rparr>),
             8 := example_edge ''GATE-g1'' ''CSE 373'' ready]) \<and>
   length ((gate_flow gate_and)
            [3 := Node ((example_gate gate_and)\<lparr>nodeStatus := ready\<rparr>),
             8 := example_edge ''GATE-g1'' ''CSE 373'' ready]) = length (gate_flow gate_and)"
  using updateNodeStatus_frame[OF gate_flow_update] gate_flow_update by blast

theorem updateAllNodes_visits_witness:
  "set (map fst gate_flow_data) = set (map elem_id (filter isNode (gate_flow gate_and))) \<and>
   distinct (map elem_id (gate_flow gate_and)) \<and>
   nodes_before_edges (gate_flow gate_and) \<and>
   consistent (gate_flow gate_and) gate_flow_data gate_flow_indexes \<and>
   map_size gate_flow_data = 5 \<and>
   map elem_id (take (map_size gate_flow_data) (gate_flow gate_and))
     = [''CSE 142'', ''CSE 143'', ''CSE 154'', ''GATE-g1'', ''CSE 373''] \<and>
   \<not> isl (updateAllNodes (gate_flow gate_and) gate_flow_data gate_flow_indexes)"
proof -
  have keys: "set (map fst gate_flow_data) = set (map elem_id (filter isNode (gate_flow gate_and)))"
    by (simp add: gate_flow_defs) 
  have dist: "distinct (map elem_id (gate_flow gate_and))"
    by (simp add: gate_flow_defs)
  have nb: "nodes_before_edges (gate_flow gate_and)"
    by (simp add: nodes_before_edges_def gate_flow_defs)
  have c: "consistent (gate_flow gate_and) gate_flow_data gate_flow_indexes"
    by (simp add: consistent_def edges_resolve_def gate_flow_defs)
  have ids: "map elem_id (filter isNode (gate_flow gate_and))
     = [''CSE 142'', ''CSE 143'', ''CSE 154'', ''GATE-g1'', ''CSE 373'']"
    by (simp add: gate_flow_defs)
  have n: "length (filter isNode (gate_flow gate_and)) = 5"
    by (simp add: gate_flow_defs)
  note v = updateAllNodes_visits[OF keys dist, of gate_flow_indexes]
  from v n have sz: "map_size gate_flow_data = 5" by simp
  from v nb have "map elem_id (take (map_size gate_flow_data) (gate_flow gate_and))
     = map elem_id (filter isNode (gate_flow gate_and))" by blast
  with ids have calls: "map elem_id (take (map_size gate_flow_data) (gate_flow gate_and))
     = [''CSE 142'', ''CSE 143'', ''CSE 154'', ''GATE-g1'', ''CSE 373'']" by simp
  from v nb c have ok: "\<not> isl (updateAllNodes (gate_flow gate_and) gate_flow_data gate_flow_indexes)"
    by blast
  from keys dist nb c sz calls ok show ?thesis by blast
qed

section \<open>Properties of the parser\<close>

lemma consumed_refl: "consumed P st st"
  by (simp add: consumed_def)

lemma consumed_trans: "consumed P a b \<Longrightarrow> consumed P b c \<Longrightarrow> consumed P a c"
  unfolding consumed_def
  by (elim exE conjE, rule_tac x="u @ ua" in exI, rule_tac x="new @ newa" in exI) auto

lemma plus_iter_consumed:
  assumes f: "\<And>st st'. st' \<in> set (f st) \<Longrightarrow> consumed P st st'"
  shows "st' \<in> set (plus_iter f n st) \<Longrightarrow> consumed P st st'"
proof (induction n arbitrary: st st')
  case 0
  then show ?case using f by simp
next
  case (Suc n)
  from Suc.prems obtain st1 where st1: "st1 \<in> set (f st)"
    and alt: "st' = st1 \<or> (length (fst st1) < length (fst st) \<and> st' \<in> set (plus_iter f n st1))"
    by (auto split: if_splits)
  from alt show ?case
  proof
    assume "st' = st1"
    with st1 f show ?thesis by simp
  next
    assume "length (fst st1) < length (fst st) \<and> st' \<in> set (plus_iter f n st1)"
    then have "consumed P st1 st'" using Suc.IH by blast
    with f[OF st1] show ?thesis by (rule consumed_trans)
  qed
qed

lemma rx_consumed:
  "atoms_in r P \<Longrightarrow> st' \<in> set (rx r st) \<Longrightarrow> consumed P st st'"
proof (induction r arbitrary: st st')
  case (Lit l)
  obtain s caps where st: "st = (s, caps)" by (cases st)
  from Lit.prems st have eq: "take (length l) s = l" and st': "st' = (drop (length l) s, caps)"
    by (auto split: if_splits)
  have "s = l @ drop (length l) s" using eq by (metis append_take_drop_id)
  with Lit.prems(1) st st' show ?case unfolding consumed_def
    by (intro exI[of _ l] exI[of _ "[]"]) auto
next
  case (Cls ranges)
  obtain s caps where st: "st = (s, caps)" by (cases st)
  from Cls.prems st obtain c where "s = c # fst st'" "in_class ranges c" "snd st' = caps"
    by (cases s) (auto split: if_splits)
  with Cls.prems(1) st show ?case unfolding consumed_def
    by (intro exI[of _ "[c]"] exI[of _ "[]"]) auto
next
  case (Seq a b)
  from Seq.prems obtain st1 where st1: "st1 \<in> set (rx a st)" "st' \<in> set (rx b st1)" by auto
  from Seq.prems(1) have ab: "atoms_in a P" "atoms_in b P" by simp_all
  from Seq.IH(1)[OF ab(1) st1(1)] Seq.IH(2)[OF ab(2) st1(2)] show ?case
    by (rule consumed_trans)
next
  case (Alt a b)
  from Alt.prems(1) have ab: "atoms_in a P" "atoms_in b P" by simp_all
  from Alt.prems(2) have "st' \<in> set (rx a st) \<or> st' \<in> set (rx b st)" by simp
  then show ?case using Alt.IH(1)[OF ab(1)] Alt.IH(2)[OF ab(2)] by blast
next
  case (Opt a)
  from Opt.prems(1) have a: "atoms_in a P" by simp
  from Opt.prems(2) have "st' \<in> set (rx a st) \<or> st' = st" by auto
  then show ?case using Opt.IH[OF a] consumed_refl by blast
next
  case (Plus a)
  from Plus.prems have "st' \<in> set (plus_iter (rx a) (length (fst st)) st)" by simp
  moreover have "\<And>s s'. s' \<in> set (rx a s) \<Longrightarrow> consumed P s s'"
    using Plus.IH Plus.prems(1) by simp
  ultimately show ?case by (rule plus_iter_consumed[rotated])
next
  case (Grp a)
  obtain s caps where st: "st = (s, caps)" by (cases st)
  from Grp.prems st obtain s1 caps1 where in1: "(s1, caps1) \<in> set (rx a (s, caps))"
    and st': "st' = (s1, caps1 @ [take (length s - length s1) s])" by auto
  from Grp.IH[OF _ in1] Grp.prems(1) have c: "consumed P (s, caps) (s1, caps1)" by simp
  then obtain u new where u: "s = u @ s1" "\<forall>c \<in> set u. P c" "caps1 = caps @ new"
    "\<forall>g \<in> set new. \<forall>c \<in> set g. P c" by (auto simp: consumed_def)
  then have "take (length s - length s1) s = u" by simp
  with u st st' show ?case unfolding consumed_def
    by (intro exI[of _ u] exI[of _ "new @ [u]"]) auto
next
  case Eoi
  then show ?case by (cases st) (auto split: if_splits intro: consumed_refl)
qed

lemma CRS_atoms: "atoms_in CRS id_char"
  by (auto simp: CRS_def digit_def in_class_def id_char_def)

lemma is_course_id_chars: "is_course_id s \<Longrightarrow> CHR ''-'' \<notin> set s"
proof -
  assume "is_course_id s"
  then obtain st where st: "st \<in> set (rx CRS (s, []))" "fst st = []"
    by (auto simp: is_course_id_def)
  from rx_consumed[OF CRS_atoms st(1)] st(2) have "\<forall>c \<in> set s. id_char c"
    by (auto simp: consumed_def)
  then show ?thesis by (auto simp: id_char_def)
qed

lemma takeWhile_arrow:
  "CHR ''-'' \<notin> set a \<Longrightarrow> takeWhile (\<lambda>x. x \<noteq> CHR ''-'') (a @ '' -> '' @ b) = a @ '' ''"
  by (induction a) auto

lemma arrow_inj:
  assumes "CHR ''-'' \<notin> set a" "CHR ''-'' \<notin> set c" "edgeArrowId a b = edgeArrowId c d"
  shows "a = c \<and> b = d"
proof -
  from assms(3) have eq: "a @ '' -> '' @ b = c @ '' -> '' @ d" by (simp add: edgeArrowId_def)
  then have "takeWhile (\<lambda>x. x \<noteq> CHR ''-'') (a @ '' -> '' @ b)
           = takeWhile (\<lambda>x. x \<noteq> CHR ''-'') (c @ '' -> '' @ d)" by simp
  with takeWhile_arrow[OF assms(1), of b] takeWhile_arrow[OF assms(2), of d]
  have "a @ '' '' = c @ '' ''" by simp
  then have "a = c" by simp
  with eq show ?thesis by simp
qed

text \<open>
  Claim C7. On course ids, that is on strings that match the course pattern as a whole,
  \<^verbatim>\<open>edgeArrowId\<close> is the concatenation with the separator \<^verbatim>\<open>" -> "\<close>, and two
  arrow ids are equal exactly when the sources are equal and the targets are equal.
\<close>

theorem edgeArrowId_injective:
  assumes "is_course_id a" "is_course_id b" "is_course_id c" "is_course_id d"
  shows "edgeArrowId a b = a @ '' -> '' @ b \<and>
         (edgeArrowId a b = edgeArrowId c d \<longleftrightarrow> a = c \<and> b = d)"
  using assms arrow_inj[of a c b d] is_course_id_chars[of a] is_course_id_chars[of c]
  by (auto simp: edgeArrowId_def)

lemma match_here_chars:
  assumes "atoms_in r P" "match_here r s = Some (whole, caps)"
  shows "(\<forall>c \<in> set whole. P c) \<and> (\<forall>g \<in> set caps. \<forall>c \<in> set g. P c)"
proof -
  from assms(2) obtain rest tl where rx: "rx r (s, []) = (rest, caps) # tl"
    and whole: "whole = take (length s - length rest) s"
    by (auto simp: match_here_def split: list.splits)
  then have "(rest, caps) \<in> set (rx r (s, []))" by simp
  from rx_consumed[OF assms(1) this] obtain u where
    u: "s = u @ rest" "\<forall>c \<in> set u. P c" "\<forall>g \<in> set caps. \<forall>c \<in> set g. P c"
    by (auto simp: consumed_def)
  from u(1) whole have "whole = u" by simp
  with u show ?thesis by simp
qed

lemma match_all_from_end:
  "match_all_from r k [] =
     (if k = 0 then (case match_here r [] of None \<Rightarrow> [] | Some (whole, _) \<Rightarrow> [whole]) else [])"
  by (rule match_all_from.simps)

lemma match_all_from_end_none: "match_here r [] = None \<Longrightarrow> match_all_from r k [] = []"
  by (subst match_all_from_end) auto

lemma match_all_from_end_some:
  "match_here r [] = Some (w, c) \<Longrightarrow> match_all_from r k [] = (if k = 0 then [w] else [])"
  by (subst match_all_from_end) auto

lemma match_all_from_chars:
  "atoms_in r P \<Longrightarrow> \<forall>w \<in> set (match_all_from r k s). \<forall>c \<in> set w. P c"
proof (induction r k s rule: match_all_from.induct)
  case (1 r k)
  show ?case
  proof (cases "match_here r []")
    case None
    then show ?thesis by (simp only: match_all_from_end_none) simp
  next
    case (Some m)
    obtain whole caps where m: "m = (whole, caps)" by (cases m)
    from match_here_chars[OF "1.prems", of "[]" whole caps] Some m
    have "\<forall>c \<in> set whole. P c" by simp
    with Some m show ?thesis by (simp only: match_all_from_end_some[of r whole caps]) simp
  qed
next
  case (2 r k c t)
  then show ?case by simp
next
  case (3 r c t)
  show ?case
  proof (cases "match_here r (c # t)")
    case None
    with 3 show ?thesis by simp
  next
    case (Some m)
    obtain whole caps where m: "m = (whole, caps)" by (cases m)
    from match_here_chars[OF "3.prems", of "c # t" whole caps] Some m
    have "\<forall>c \<in> set whole. P c" by simp
    moreover from "3.IH"(2)[OF Some[unfolded m] refl "3.prems"]
    have "\<forall>w \<in> set (match_all_from r (length whole - 1) t). \<forall>c \<in> set w. P c" .
    ultimately show ?thesis using Some m by simp
  qed
qed

lemma course_matches_chars:
  "w \<in> set (match_all COURSE_REGEX s) \<Longrightarrow> CHR ''-'' \<notin> set w"
  using match_all_from_chars[OF CRS_atoms, of 0 s]
  by (auto simp: match_all_def COURSE_REGEX_def id_char_def)

lemma regex_exec_chars:
  assumes "atoms_in r P" "regex_exec r s = Some (whole, caps)"
  shows "\<forall>g \<in> set caps. \<forall>c \<in> set g. P c"
  using assms(2)
proof (induction s)
  case Nil
  then show ?case using match_here_chars[OF assms(1), of "[]" whole caps] by simp
next
  case (Cons c t)
  then show ?case using match_here_chars[OF assms(1), of "c # t" whole caps]
    by (auto split: option.splits)
qed

lemma either_atoms:
  "atoms_in DOUBLE_EITHER_REGEX id_char" "atoms_in TRIPLE_EITHER_REGEX id_char"
  using CRS_atoms
  by (auto simp: DOUBLE_EITHER_REGEX_def TRIPLE_EITHER_REGEX_def either_prefix_def id_char_def
        in_class_def)

lemma either_captures_chars:
  assumes "(case str_match TRIPLE_EITHER_REGEX sec of Some m \<Rightarrow> Some m
            | None \<Rightarrow> str_match DOUBLE_EITHER_REGEX sec) = Some ms"
  shows "\<forall>g \<in> set (tl ms). CHR ''-'' \<notin> set g"
proof -
  from assms obtain r where r: "r = TRIPLE_EITHER_REGEX \<or> r = DOUBLE_EITHER_REGEX"
    and m: "str_match r sec = Some ms"
    by (auto split: option.splits)
  from r either_atoms have a: "atoms_in r id_char" by auto
  from m obtain whole caps where "regex_exec r sec = Some (whole, caps)" "ms = whole # caps"
    by (auto simp: str_match_def)
  with regex_exec_chars[OF a, of sec whole caps] show ?thesis by (auto simp: id_char_def)
qed

lemma arrow_has_dash: "CHR ''-'' \<in> set (edgeArrowId a b)"
  by (simp add: edgeArrowId_def)

lemma addEdges_result:
  assumes "\<forall>s \<in> set srcs. CHR ''-'' \<notin> set s"
  shows "\<exists>new. addEdges srcs tgt (els, ids) =
            (els @ map (\<lambda>s. Edge (newEdge s tgt (Some (edgeArrowId s tgt)))) new,
             ids \<union> (\<lambda>s. edgeArrowId s tgt) ` set new) \<and>
          set new \<subseteq> set srcs \<inter> ids \<and> distinct new \<and>
          (\<forall>s \<in> set new. edgeArrowId s tgt \<notin> ids \<and> edgeArrowId tgt s \<notin> ids) \<and>
          (\<forall>s \<in> set srcs. s \<in> ids \<longrightarrow>
             edgeArrowId s tgt \<in> ids \<union> (\<lambda>s. edgeArrowId s tgt) ` set new \<or>
             edgeArrowId tgt s \<in> ids \<union> (\<lambda>s. edgeArrowId s tgt) ` set new)"
  using assms
proof (induction srcs arbitrary: els ids)
  case Nil
  show ?case by (rule exI[of _ "[]"]) simp
next
  case (Cons src srcs)
  from Cons.prems have tl: "\<forall>s \<in> set srcs. CHR ''-'' \<notin> set s" and hd: "CHR ''-'' \<notin> set src"
    by simp_all
  let ?e = "edgeArrowId src tgt"
  show ?case
  proof (cases "src \<in> ids \<and> ?e \<notin> ids \<and> edgeArrowId tgt src \<notin> ids")
    case True
    let ?els1 = "els @ [Edge (newEdge src tgt (Some ?e))]"
    let ?ids1 = "insert ?e ids"
    from Cons.IH[OF tl, of ?els1 ?ids1] obtain new where
      r: "addEdges srcs tgt (?els1, ?ids1) =
            (?els1 @ map (\<lambda>s. Edge (newEdge s tgt (Some (edgeArrowId s tgt)))) new,
             ?ids1 \<union> (\<lambda>s. edgeArrowId s tgt) ` set new)"
      and sub: "set new \<subseteq> set srcs \<inter> ?ids1" and d: "distinct new"
      and fresh: "\<forall>s \<in> set new. edgeArrowId s tgt \<notin> ?ids1 \<and> edgeArrowId tgt s \<notin> ?ids1"
      and cover: "\<forall>s \<in> set srcs. s \<in> ?ids1 \<longrightarrow>
             edgeArrowId s tgt \<in> ?ids1 \<union> (\<lambda>s. edgeArrowId s tgt) ` set new \<or>
             edgeArrowId tgt s \<in> ?ids1 \<union> (\<lambda>s. edgeArrowId s tgt) ` set new"
      by blast
    have sub': "set new \<subseteq> set srcs \<inter> ids"
    proof
      fix s assume s: "s \<in> set new"
      with sub have "s \<in> set srcs" "s \<in> ?ids1" by auto
      moreover from this tl have "s \<noteq> ?e" using arrow_has_dash[of src tgt] by auto
      ultimately show "s \<in> set srcs \<inter> ids" by simp
    qed
    have notin: "src \<notin> set new" using fresh by auto
    show ?thesis
    proof (rule exI[of _ "src # new"], intro conjI)
      show "addEdges (src # srcs) tgt (els, ids) =
            (els @ map (\<lambda>s. Edge (newEdge s tgt (Some (edgeArrowId s tgt)))) (src # new),
             ids \<union> (\<lambda>s. edgeArrowId s tgt) ` set (src # new))"
        using True r by (simp add: Let_def)
      show "set (src # new) \<subseteq> set (src # srcs) \<inter> ids" using sub' True by auto
      show "distinct (src # new)" using d notin by simp
      show "\<forall>s \<in> set (src # new). edgeArrowId s tgt \<notin> ids \<and> edgeArrowId tgt s \<notin> ids"
        using fresh True by auto
      show "\<forall>s \<in> set (src # srcs). s \<in> ids \<longrightarrow>
             edgeArrowId s tgt \<in> ids \<union> (\<lambda>s. edgeArrowId s tgt) ` set (src # new) \<or>
             edgeArrowId tgt s \<in> ids \<union> (\<lambda>s. edgeArrowId s tgt) ` set (src # new)"
        using cover by auto
    qed
  next
    case False
    from Cons.IH[OF tl, of els ids] obtain new where
      r: "addEdges srcs tgt (els, ids) =
            (els @ map (\<lambda>s. Edge (newEdge s tgt (Some (edgeArrowId s tgt)))) new,
             ids \<union> (\<lambda>s. edgeArrowId s tgt) ` set new)"
      and sub: "set new \<subseteq> set srcs \<inter> ids" and d: "distinct new"
      and fresh: "\<forall>s \<in> set new. edgeArrowId s tgt \<notin> ids \<and> edgeArrowId tgt s \<notin> ids"
      and cover: "\<forall>s \<in> set srcs. s \<in> ids \<longrightarrow>
             edgeArrowId s tgt \<in> ids \<union> (\<lambda>s. edgeArrowId s tgt) ` set new \<or>
             edgeArrowId tgt s \<in> ids \<union> (\<lambda>s. edgeArrowId s tgt) ` set new"
      by blast
    show ?thesis
    proof (rule exI[of _ new], intro conjI)
      show "addEdges (src # srcs) tgt (els, ids) =
            (els @ map (\<lambda>s. Edge (newEdge s tgt (Some (edgeArrowId s tgt)))) new,
             ids \<union> (\<lambda>s. edgeArrowId s tgt) ` set new)"
        using False r by (auto simp: Let_def)
      show "set new \<subseteq> set (src # srcs) \<inter> ids" using sub by auto
      show "distinct new" by (rule d)
      show "\<forall>s \<in> set new. edgeArrowId s tgt \<notin> ids \<and> edgeArrowId tgt s \<notin> ids" by (rule fresh)
      show "\<forall>s \<in> set (src # srcs). s \<in> ids \<longrightarrow>
             edgeArrowId s tgt \<in> ids \<union> (\<lambda>s. edgeArrowId s tgt) ` set new \<or>
             edgeArrowId tgt s \<in> ids \<union> (\<lambda>s. edgeArrowId s tgt) ` set new"
        using cover False by auto
    qed
  qed
qed

lemma addEdges_absent: "set srcs \<inter> ids = {} \<Longrightarrow> (\<forall>s \<in> set srcs. CHR ''-'' \<notin> set s) \<Longrightarrow>
   addEdges srcs tgt (els, ids) = (els, ids)"
  using addEdges_result[of srcs tgt els ids] by auto

lemma gateEdges_map:
  "gateEdges reqs orNodeId sec els =
     els @ map (\<lambda>req. Edge (concurrentEdge sec (newEdge req orNodeId None))) reqs"
  by (induction reqs arbitrary: els) simp_all

lemma secondPass_section_unmatched:
  assumes "match_all COURSE_REGEX sec \<noteq> []" "accepted_match sec = None"
  shows "secondPass_section nanoid mode crs sec ((els, ids), k) =
           (if mode = ''aggressively''
            then Inr (addEdges (match_all COURSE_REGEX sec) crs (els, ids), k)
            else Inr ((els, ids), k))"
  using assms
  by (auto simp: secondPass_section_def accepted_match_def Let_def split: option.splits if_splits)

lemma secondPass_section_matched:
  assumes "match_all COURSE_REGEX sec \<noteq> []" "accepted_match sec = Some ms"
  shows "secondPass_section nanoid mode crs sec ((els, ids), k) =
           (let alreadyRequired = filter (\<lambda>m. m \<in> ids) (tl ms) in
            if length alreadyRequired = 1 then
              Inr ((els @ [Edge (concurrentEdge sec (newEdge (hd alreadyRequired) crs None))], ids), k)
            else if length alreadyRequired > 1 then
              Inr ((els @ [Node (newConditionalNode gate_or (nanoid k)),
                            Edge (newEdge (node_id (newConditionalNode gate_or (nanoid k))) crs None)]
                        @ map (\<lambda>req. Edge (concurrentEdge sec
                                 (newEdge req (node_id (newConditionalNode gate_or (nanoid k))) None)))
                            alreadyRequired, ids), k + 1)
            else if mode = ''aggressively'' then Inr (addEdges (tl ms) crs (els, ids), k)
            else Inr ((els, ids), k))"
proof -
  let ?matches = "(case str_match TRIPLE_EITHER_REGEX sec of
                       Some m \<Rightarrow> Some m | None \<Rightarrow> str_match DOUBLE_EITHER_REGEX sec)"
  from assms(2) have m: "?matches = Some ms"
    and len: "length ms = length (match_all COURSE_REGEX sec) + 1"
    by (auto simp: accepted_match_def Let_def split: if_splits)
  show ?thesis
    unfolding secondPass_section_def
    using assms(1) len by (simp add: m Let_def gateEdges_map)
qed

text \<open>
  Claim C3, as the code has it. For a deferred section with an accepted match none of
  whose alternatives is registered, the second pass adds nothing, whatever the mode:
  the aggressive branch calls \<^verbatim>\<open>addEdges\<close>, which adds an edge only from a
  registered id.
\<close>

theorem matched_clause_without_alternatives:
  assumes tokens: "1 < length (match_all COURSE_REGEX sec)"
    and acc: "accepted_match sec = Some ms"
    and absent: "set (tl ms) \<inter> elementIds = {}"
  shows "secondPass_section nanoid ambiguousHandling crs sec ((elements, elementIds), k) =
           Inr ((elements, elementIds), k)"
proof -
  from tokens have ne: "match_all COURSE_REGEX sec \<noteq> []" by auto
  from absent have none: "filter (\<lambda>m. m \<in> elementIds) (tl ms) = []"
    by (auto simp: filter_empty_conv)
  from acc have "(case str_match TRIPLE_EITHER_REGEX sec of Some m \<Rightarrow> Some m
            | None \<Rightarrow> str_match DOUBLE_EITHER_REGEX sec) = Some ms"
    by (auto simp: accepted_match_def Let_def split: if_splits)
  from either_captures_chars[OF this] have "\<forall>s \<in> set (tl ms). CHR ''-'' \<notin> set s" .
  with absent have "addEdges (tl ms) crs (elements, elementIds) = (elements, elementIds)"
    by (intro addEdges_absent) auto
  with secondPass_section_matched[OF ne acc, of nanoid ambiguousHandling crs elements elementIds k]
    none show ?thesis by (simp add: Let_def)
qed

text \<open>
  Claim C8, as the code has it. For a deferred section without an accepted match, the
  second pass returns without an error. In any mode but \<^verbatim>\<open>"aggressively"\<close> it
  changes nothing. In that mode it appends edges to the owning course from course ids
  of the section that are registered, each such id once and only when neither its
  arrow id nor the reverse one is registered, and afterwards every registered course
  id of the section has its arrow id or the reverse one registered.
\<close>

theorem unparsed_clause_handling:
  assumes tokens: "1 < length (match_all COURSE_REGEX sec)"
    and unparsed: "accepted_match sec = None"
  shows "(ambiguousHandling \<noteq> ''aggressively'' \<longrightarrow>
            secondPass_section nanoid ambiguousHandling crs sec ((elements, elementIds), k) =
              Inr ((elements, elementIds), k)) \<and>
         (\<exists>new.
            secondPass_section nanoid ''aggressively'' crs sec ((elements, elementIds), k) =
              Inr ((elements @ map (\<lambda>s. Edge (newEdge s crs (Some (edgeArrowId s crs)))) new,
                    elementIds \<union> (\<lambda>s. edgeArrowId s crs) ` set new), k) \<and>
            set new \<subseteq> set (match_all COURSE_REGEX sec) \<inter> elementIds \<and> distinct new \<and>
            (\<forall>s \<in> set new. edgeArrowId s crs \<notin> elementIds \<and> edgeArrowId crs s \<notin> elementIds) \<and>
            (\<forall>s \<in> set (match_all COURSE_REGEX sec). s \<in> elementIds \<longrightarrow>
               edgeArrowId s crs \<in> elementIds \<union> (\<lambda>s. edgeArrowId s crs) ` set new \<or>
               edgeArrowId crs s \<in> elementIds \<union> (\<lambda>s. edgeArrowId s crs) ` set new))"
proof -
  from tokens have ne: "match_all COURSE_REGEX sec \<noteq> []" by auto
  note step = secondPass_section_unmatched[OF ne unparsed, of nanoid _ crs elements elementIds k]
  have chars: "\<forall>s \<in> set (match_all COURSE_REGEX sec). CHR ''-'' \<notin> set s"
    using course_matches_chars by blast
  from addEdges_result[OF chars, of crs elements elementIds] obtain new where
    new: "addEdges (match_all COURSE_REGEX sec) crs (elements, elementIds) =
            (elements @ map (\<lambda>s. Edge (newEdge s crs (Some (edgeArrowId s crs)))) new,
             elementIds \<union> (\<lambda>s. edgeArrowId s crs) ` set new)"
      "set new \<subseteq> set (match_all COURSE_REGEX sec) \<inter> elementIds" "distinct new"
      "\<forall>s \<in> set new. edgeArrowId s crs \<notin> elementIds \<and> edgeArrowId crs s \<notin> elementIds"
      "\<forall>s \<in> set (match_all COURSE_REGEX sec). s \<in> elementIds \<longrightarrow>
               edgeArrowId s crs \<in> elementIds \<union> (\<lambda>s. edgeArrowId s crs) ` set new \<or>
               edgeArrowId crs s \<in> elementIds \<union> (\<lambda>s. edgeArrowId s crs) ` set new"
    by blast
  show ?thesis
  proof (intro conjI impI)
    assume "ambiguousHandling \<noteq> ''aggressively''"
    then show "secondPass_section nanoid ambiguousHandling crs sec ((elements, elementIds), k) =
              Inr ((elements, elementIds), k)"
      using step[of ambiguousHandling] by simp
  next
    show "\<exists>new.
            secondPass_section nanoid ''aggressively'' crs sec ((elements, elementIds), k) =
              Inr ((elements @ map (\<lambda>s. Edge (newEdge s crs (Some (edgeArrowId s crs)))) new,
                    elementIds \<union> (\<lambda>s. edgeArrowId s crs) ` set new), k) \<and>
            set new \<subseteq> set (match_all COURSE_REGEX sec) \<inter> elementIds \<and> distinct new \<and>
            (\<forall>s \<in> set new. edgeArrowId s crs \<notin> elementIds \<and> edgeArrowId crs s \<notin> elementIds) \<and>
            (\<forall>s \<in> set (match_all COURSE_REGEX sec). s \<in> elementIds \<longrightarrow>
               edgeArrowId s crs \<in> elementIds \<union> (\<lambda>s. edgeArrowId s crs) ` set new \<or>
               edgeArrowId crs s \<in> elementIds \<union> (\<lambda>s. edgeArrowId s crs) ` set new)"
      using step[of "''aggressively''"] new by (intro exI[of _ new]) simp
  qed
qed

lemma edge_pairs_append: "edge_pairs (xs @ ys) = edge_pairs xs @ edge_pairs ys"
  by (induction xs rule: edge_pairs.induct) simp_all

lemma edge_pairs_nodes: "edge_pairs (map (\<lambda>c. Node (f c)) cs) = []"
  by (induction cs) simp_all

lemma parse_inv_add:
  assumes inv: "parse_inv C (els, ids)"
    and fresh: "edgeArrowId s t \<notin> ids" "edgeArrowId t s \<notin> ids"
  shows "parse_inv C (els @ [Edge (newEdge s t (Some (edgeArrowId s t)))],
                      insert (edgeArrowId s t) ids)"
proof -
  from inv have reg: "\<forall>(a, b) \<in> set (edge_pairs els). edgeArrowId a b \<in> ids"
    and d: "distinct (edge_pairs els)"
    and norev: "\<forall>(a, b) \<in> set (edge_pairs els). a \<noteq> b \<longrightarrow> (b, a) \<notin> set (edge_pairs els)"
    and ids: "\<forall>x \<in> ids. x \<in> C \<or> CHR ''-'' \<in> set x"
    by (auto simp: parse_inv_def simple_edges_def)
  from reg fresh have n1: "(s, t) \<notin> set (edge_pairs els)" and n2: "(t, s) \<notin> set (edge_pairs els)"
    by auto
  have ep: "edge_pairs (els @ [Edge (newEdge s t (Some (edgeArrowId s t)))])
              = edge_pairs els @ [(s, t)]"
    by (simp add: edge_pairs_append newEdge_def)
  have "simple_edges (els @ [Edge (newEdge s t (Some (edgeArrowId s t)))])"
    unfolding simple_edges_def ep using d norev n1 n2 by auto
  moreover have "\<forall>(a, b) \<in> set (edge_pairs els @ [(s, t)]). edgeArrowId a b \<in> insert (edgeArrowId s t) ids"
    using reg by auto
  moreover have "\<forall>x \<in> insert (edgeArrowId s t) ids. x \<in> C \<or> CHR ''-'' \<in> set x"
    using ids arrow_has_dash by auto
  ultimately show ?thesis by (simp add: parse_inv_def ep)
qed

lemma addEdges_inv:
  "parse_inv C ps \<Longrightarrow> parse_inv C (addEdges srcs tgt ps)"
proof (induction srcs arbitrary: ps)
  case Nil
  then show ?case by simp
next
  case (Cons src srcs)
  obtain els ids where ps: "ps = (els, ids)" by (cases ps)
  show ?case
  proof (cases "src \<in> ids \<and> edgeArrowId src tgt \<notin> ids \<and> edgeArrowId tgt src \<notin> ids")
    case True
    with Cons.prems ps have "parse_inv C (els @ [Edge (newEdge src tgt (Some (edgeArrowId src tgt)))],
                      insert (edgeArrowId src tgt) ids)"
      by (intro parse_inv_add) simp_all
    from Cons.IH[OF this] True ps show ?thesis by (simp add: Let_def)
  next
    case False
    with Cons.IH[OF Cons.prems] ps show ?thesis by (auto simp: Let_def)
  qed
qed

lemma update_set:
  "(c, v') \<in> set (AList.update k v al) \<Longrightarrow> (c, v') = (k, v) \<or> (c, v') \<in> set al"
  by (induction al) (auto split: if_splits)

lemma secondPass_push_ok:
  assumes ok: "deferred_ok S sp" and s: "sec \<in> S" "match_all COURSE_REGEX sec \<noteq> []"
  shows "deferred_ok S (secondPass_push cid sec sp)"
proof -
  let ?sp1 = "if map_of sp cid = None then AList.update cid [] sp else sp"
  have ok1: "deferred_ok S ?sp1"
    using ok unfolding deferred_ok_def by (auto dest!: update_set)
  obtain old where old: "map_of ?sp1 cid = Some old"
    by (cases "map_of sp cid") (auto simp: update_conv')
  then have "(cid, old) \<in> set ?sp1" by (rule map_of_SomeD)
  with ok1 have oldok: "\<forall>x \<in> set old. x \<in> S \<and> match_all COURSE_REGEX x \<noteq> []"
    unfolding deferred_ok_def by blast
  have "secondPass_push cid sec sp = AList.update cid (old @ [sec]) ?sp1"
    using old by (simp add: secondPass_push_def Let_def)
  moreover have "deferred_ok S (AList.update cid (old @ [sec]) ?sp1)"
    unfolding deferred_ok_def
  proof (intro ballI, clarify)
    fix c ss x assume "(c, ss) \<in> set (AList.update cid (old @ [sec]) ?sp1)" "x \<in> set ss"
    then show "x \<in> S \<and> match_all COURSE_REGEX x \<noteq> []"
      using update_set[of c ss cid "old @ [sec]" ?sp1] ok1 oldok s
      unfolding deferred_ok_def by fastforce
  qed
  ultimately show ?thesis by simp
qed

lemma firstPass_sections_inv:
  assumes "parse_inv C ps" "deferred_ok S sp" "set secs \<subseteq> S"
  shows "parse_inv C (fst (firstPass_sections secs cid (ps, sp))) \<and>
         deferred_ok S (snd (firstPass_sections secs cid (ps, sp)))"
  using assms
proof (induction secs arbitrary: ps sp)
  case Nil
  then show ?case by simp
next
  case (Cons sec secs)
  from Cons.prems have sub: "set secs \<subseteq> S" and sec: "sec \<in> S" by simp_all
  let ?cm = "match_all COURSE_REGEX sec"
  consider "?cm = []" | "?cm \<noteq> []" "length ?cm = 1" | "?cm \<noteq> []" "length ?cm \<noteq> 1" by blast
  then show ?case
  proof cases
    case 1
    with Cons.IH[OF Cons.prems(1,2) sub] show ?thesis by simp
  next
    case 2
    from addEdges_inv[OF Cons.prems(1)] have "parse_inv C (addEdges ?cm cid ps)" .
    from Cons.IH[OF this Cons.prems(2) sub] 2 show ?thesis by (simp add: Let_def)
  next
    case 3
    from secondPass_push_ok[OF Cons.prems(2) sec 3(1)]
    have "deferred_ok S (secondPass_push cid sec sp)" .
    from Cons.IH[OF Cons.prems(1) this sub] 3 show ?thesis by (simp add: Let_def)
  qed
qed

lemma firstPass_inv:
  assumes "parse_inv C ps" "deferred_ok S sp" "set (all_sections cs) \<subseteq> S"
  shows "parse_inv C (fst (firstPass cs (ps, sp))) \<and> deferred_ok S (snd (firstPass cs (ps, sp)))"
  using assms
proof (induction cs arbitrary: ps sp)
  case Nil
  then show ?case by simp
next
  case (Cons d cs)
  from Cons.prems(3) have sub: "set (all_sections cs) \<subseteq> S"
    and here: "set (split_on CHR '';'' (prerequisite d)) \<subseteq> S"
    by (simp_all add: all_sections_def)
  show ?case
  proof (cases "regex_test COURSE_REGEX (prerequisite d)")
    case False
    with Cons.IH[OF Cons.prems(1,2) sub] show ?thesis by simp
  next
    case True
    obtain ps' sp' where r: "firstPass_sections (split_on CHR '';'' (prerequisite d)) (course_id d) (ps, sp) = (ps', sp')"
      by (cases "firstPass_sections (split_on CHR '';'' (prerequisite d)) (course_id d) (ps, sp)")
    from firstPass_sections_inv[OF Cons.prems(1,2) here, of "course_id d"] r
    have "parse_inv C ps'" "deferred_ok S sp'" by simp_all
    from Cons.IH[OF this sub] True r show ?thesis by simp
  qed
qed

lemma secondPass_section_inv:
  assumes inv: "parse_inv C ps"
    and ne: "match_all COURSE_REGEX sec \<noteq> []"
    and h: "case accepted_match sec of None \<Rightarrow> True | Some ms \<Rightarrow> set (tl ms) \<inter> C = {}"
  shows "\<exists>ps'. secondPass_section nanoid mode crs sec (ps, k) = Inr (ps', k) \<and> parse_inv C ps'"
proof -
  obtain els ids where ps: "ps = (els, ids)" by (cases ps)
  show ?thesis
  proof (cases "accepted_match sec")
    case None
    from secondPass_section_unmatched[OF ne None, of nanoid mode crs els ids k]
      addEdges_inv[OF inv, of "match_all COURSE_REGEX sec" crs] inv ps
    show ?thesis by (cases "mode = ''aggressively''") auto
  next
    case (Some ms)
    with h have disj: "set (tl ms) \<inter> C = {}" by simp
    from Some have "(case str_match TRIPLE_EITHER_REGEX sec of Some m \<Rightarrow> Some m
            | None \<Rightarrow> str_match DOUBLE_EITHER_REGEX sec) = Some ms"
      by (auto simp: accepted_match_def Let_def split: if_splits)
    from either_captures_chars[OF this] have nodash: "\<forall>s \<in> set (tl ms). CHR ''-'' \<notin> set s" .
    from inv ps have "\<forall>x \<in> ids. x \<in> C \<or> CHR ''-'' \<in> set x" by (simp add: parse_inv_def)
    with disj nodash have "set (tl ms) \<inter> ids = {}" by auto
    then have none: "filter (\<lambda>m. m \<in> ids) (tl ms) = []" by (auto simp: filter_empty_conv)
    from secondPass_section_matched[OF ne Some, of nanoid mode crs els ids k] none
      addEdges_inv[OF inv, of "tl ms" crs] inv ps
    show ?thesis by (cases "mode = ''aggressively''") (auto simp: Let_def)
  qed
qed

lemma secondPass_sections_inv:
  assumes "parse_inv C ps"
    and "\<forall>sec \<in> set secs. match_all COURSE_REGEX sec \<noteq> [] \<and>
           (case accepted_match sec of None \<Rightarrow> True | Some ms \<Rightarrow> set (tl ms) \<inter> C = {})"
  shows "\<exists>ps'. secondPass_sections nanoid mode crs secs (ps, k) = Inr (ps', k) \<and> parse_inv C ps'"
  using assms
proof (induction secs arbitrary: ps)
  case Nil
  then show ?case by simp
next
  case (Cons sec secs)
  from Cons.prems(2) have ne: "match_all COURSE_REGEX sec \<noteq> []"
    and h: "case accepted_match sec of None \<Rightarrow> True | Some ms \<Rightarrow> set (tl ms) \<inter> C = {}"
    and rest: "\<forall>sec \<in> set secs. match_all COURSE_REGEX sec \<noteq> [] \<and>
           (case accepted_match sec of None \<Rightarrow> True | Some ms \<Rightarrow> set (tl ms) \<inter> C = {})"
    by simp_all
  from secondPass_section_inv[OF Cons.prems(1) ne h, of nanoid mode crs k] obtain ps1 where
    s1: "secondPass_section nanoid mode crs sec (ps, k) = Inr (ps1, k)" "parse_inv C ps1" by blast
  from Cons.IH[OF s1(2) rest] s1(1) show ?case by simp
qed

lemma secondPass_entries_inv:
  assumes "parse_inv C ps"
    and "\<forall>(c, ss) \<in> set sp. \<forall>sec \<in> set ss. match_all COURSE_REGEX sec \<noteq> [] \<and>
           (case accepted_match sec of None \<Rightarrow> True | Some ms \<Rightarrow> set (tl ms) \<inter> C = {})"
  shows "\<exists>ps'. secondPass_entries nanoid mode sp (ps, k) = Inr (ps', k) \<and> parse_inv C ps'"
  using assms
proof (induction sp arbitrary: ps)
  case Nil
  then show ?case by simp
next
  case (Cons entry sp)
  obtain crs secs where entry: "entry = (crs, secs)" by (cases entry)
  from Cons.prems(2) entry have here: "\<forall>sec \<in> set secs. match_all COURSE_REGEX sec \<noteq> [] \<and>
           (case accepted_match sec of None \<Rightarrow> True | Some ms \<Rightarrow> set (tl ms) \<inter> C = {})"
    and rest: "\<forall>(c, ss) \<in> set sp. \<forall>sec \<in> set ss. match_all COURSE_REGEX sec \<noteq> [] \<and>
           (case accepted_match sec of None \<Rightarrow> True | Some ms \<Rightarrow> set (tl ms) \<inter> C = {})"
    by simp_all
  from secondPass_sections_inv[OF Cons.prems(1) here, of nanoid mode crs k] obtain ps1 where
    s1: "secondPass_sections nanoid mode crs secs (ps, k) = Inr (ps1, k)" "parse_inv C ps1" by blast
  from Cons.IH[OF s1(2) rest] s1(1) entry show ?case by simp
qed

text \<open>
  Claim C2, as the code has it. When no section with an accepted match names a course
  of the list among its alternatives, \<^verbatim>\<open>generateInitialElements\<close> returns, in
  either mode, a list with at most one edge for an ordered pair and without an edge
  between two different ids together with its reverse. An edge from an id to itself
  is not excluded.
\<close>

theorem guarded_edges_simple:
  assumes "no_required_alternative courseData"
  shows "\<exists>els. generateInitialElements nanoid courseData ambiguousHandling = Inr els \<and>
               simple_edges els"
proof -
  let ?C = "set (map course_id courseData)"
  let ?S = "set (all_sections courseData)"
  let ?els0 = "map (\<lambda>c. Node (newCourseNode c)) courseData"
  have inv0: "parse_inv ?C (?els0, ?C)"
    by (simp add: parse_inv_def simple_edges_def edge_pairs_nodes)
  have d0: "deferred_ok ?S []" by (simp add: deferred_ok_def)
  obtain ps sp where fp: "firstPass courseData ((?els0, ?C), []) = (ps, sp)"
    by (cases "firstPass courseData ((?els0, ?C), [])")
  from firstPass_inv[OF inv0 d0 subset_refl] fp
  have inv1: "parse_inv ?C ps" and d1: "deferred_ok ?S sp" by simp_all
  have "\<forall>(c, ss) \<in> set sp. \<forall>sec \<in> set ss. match_all COURSE_REGEX sec \<noteq> [] \<and>
           (case accepted_match sec of None \<Rightarrow> True | Some ms \<Rightarrow> set (tl ms) \<inter> ?C = {})"
    using d1 assms unfolding deferred_ok_def no_required_alternative_def by fastforce
  from secondPass_entries_inv[OF inv1 this, of nanoid ambiguousHandling 0] obtain ps' where
    sp: "secondPass_entries nanoid ambiguousHandling sp (ps, 0) = Inr (ps', 0)"
    and inv2: "parse_inv ?C ps'" by blast
  obtain els ids where ps': "ps' = (els, ids)" by (cases ps')
  have "generateInitialElements nanoid courseData ambiguousHandling = Inr els"
    using fp sp ps' by (simp add: generateInitialElements_def)
  moreover from inv2 ps' have "simple_edges els" by (simp add: parse_inv_def)
  ultimately show ?thesis by blast
qed

subsection \<open>Sections with registered alternatives\<close>

lemma plus_iter_extend:
  assumes f: "\<And>s caps s' caps'. (s', caps') \<in> set (f (s, caps)) \<Longrightarrow>
                (s' @ post, caps') \<in> set (f (s @ post, caps))"
  shows "(s', caps') \<in> set (plus_iter f n (s, caps)) \<Longrightarrow> n \<le> m \<Longrightarrow>
         (s' @ post, caps') \<in> set (plus_iter f m (s @ post, caps))"
proof (induction n arbitrary: m s caps)
  case 0
  then have here: "(s' @ post, caps') \<in> set (f (s @ post, caps))" using f by simp
  show ?case
  proof (cases m)
    case 0
    with here show ?thesis by simp
  next
    case (Suc m')
    from here show ?thesis unfolding Suc
      by (simp only: plus_iter.simps set_concat set_map) (rule UN_I[OF imageI], assumption, simp)
  qed
next
  case (Suc n)
  from Suc.prems(2) obtain m' where m: "m = Suc m'" and le: "n \<le> m'" by (cases m) auto
  from Suc.prems(1) obtain s1 c1 where st1: "(s1, c1) \<in> set (f (s, caps))"
    and alt: "(s', caps') = (s1, c1) \<or>
              (length s1 < length s \<and> (s', caps') \<in> set (plus_iter f n (s1, c1)))"
    by (auto split: if_splits)
  from f[OF st1] have ext: "(s1 @ post, c1) \<in> set (f (s @ post, caps))" .
  from alt have "(s' @ post, caps') \<in> set ((if length (fst (s1 @ post, c1)) < length (fst (s @ post, caps))
                    then plus_iter f m' (s1 @ post, c1) else []) @ [(s1 @ post, c1)])"
  proof
    assume "(s', caps') = (s1, c1)"
    then show ?thesis by simp
  next
    assume a: "length s1 < length s \<and> (s', caps') \<in> set (plus_iter f n (s1, c1))"
    with Suc.IH[OF _ le, of s1 c1] have "(s' @ post, caps') \<in> set (plus_iter f m' (s1 @ post, c1))"
      by simp
    with a show ?thesis by simp
  qed
  with ext show ?case unfolding m
    by (simp only: plus_iter.simps set_concat set_map) (rule UN_I[OF imageI], assumption, assumption)
qed

lemma rx_extend:
  "anchor_free r \<Longrightarrow> (s', caps') \<in> set (rx r (s, caps)) \<Longrightarrow>
   (s' @ post, caps') \<in> set (rx r (s @ post, caps))"
proof (induction r arbitrary: s caps s' caps')
  case (Lit l)
  from Lit.prems(2) have eq: "take (length l) s = l" and s': "s' = drop (length l) s" "caps' = caps"
    by (auto split: if_splits)
  from arg_cong[OF eq, of length] have "length l \<le> length s" by simp
  with eq s' show ?case by simp
next
  case (Cls ranges)
  then show ?case by (cases s) (auto split: if_splits)
next
  case (Seq a b)
  from Seq.prems(2) obtain s1 c1 where m: "(s1, c1) \<in> set (rx a (s, caps))"
    "(s', caps') \<in> set (rx b (s1, c1))" by auto
  from Seq.prems(1) have ab: "anchor_free a" "anchor_free b" by simp_all
  from Seq.IH(1)[OF ab(1) m(1)] Seq.IH(2)[OF ab(2) m(2)] show ?case by (auto intro: bexI)
next
  case (Alt a b)
  from Alt.prems(1) have ab: "anchor_free a" "anchor_free b" by simp_all
  from Alt.prems(2) have "(s', caps') \<in> set (rx a (s, caps)) \<or> (s', caps') \<in> set (rx b (s, caps))"
    by simp
  then show ?case using Alt.IH(1)[OF ab(1)] Alt.IH(2)[OF ab(2)] by auto
next
  case (Opt a)
  from Opt.prems(1) have a: "anchor_free a" by simp
  from Opt.prems(2) have "(s', caps') \<in> set (rx a (s, caps)) \<or> (s', caps') = (s, caps)" by auto
  then show ?case using Opt.IH[OF a] by auto
next
  case (Plus a)
  from Plus.prems(1) have a: "anchor_free a" by simp
  from Plus.prems(2) have "(s', caps') \<in> set (plus_iter (rx a) (length s) (s, caps))" by simp
  from plus_iter_extend[of "rx a" post, OF Plus.IH[OF a] this, of "length (s @ post)"]
  show ?case by simp
next
  case (Grp a)
  from Grp.prems(1) have a: "anchor_free a" by simp
  from Grp.prems(2) obtain c1 where in1: "(s', c1) \<in> set (rx a (s, caps))"
    and c: "caps' = c1 @ [take (length s - length s') s]" by auto
  from Grp.IH[OF a in1] have "(s' @ post, c1) \<in> set (rx a (s @ post, caps))" .
  then have "(s' @ post, c1 @ [take (length (s @ post) - length (s' @ post)) (s @ post)])
               \<in> set (rx (Grp a) (s @ post, caps))" by force
  with c show ?case by simp
next
  case Eoi
  then show ?case by simp
qed

lemma match_here_found: "(match_here r s \<noteq> None) = (rx r (s, []) \<noteq> [])"
  by (auto simp: match_here_def split: list.splits)

lemma match_here_extend:
  assumes "anchor_free r" "match_here r s \<noteq> None"
  shows "match_here r (s @ post) \<noteq> None"
proof -
  from assms(2) obtain s' caps' where "(s', caps') \<in> set (rx r (s, []))"
    unfolding match_here_found by (cases "rx r (s, [])") auto
  from rx_extend[OF assms(1) this, of post] show ?thesis
    unfolding match_here_found by auto
qed

lemma regex_exec_suffix: "match_here r u \<noteq> None \<Longrightarrow> regex_exec r (pre @ u) \<noteq> None"
proof (induction pre)
  case Nil
  then show ?case by (cases u) (auto split: option.splits)
next
  case (Cons c pre)
  then show ?case by (auto split: option.splits)
qed

lemma match_all_from_suffix:
  "match_all_from r k s \<noteq> [] \<Longrightarrow> \<exists>pre u. s = pre @ u \<and> match_here r u \<noteq> None"
proof (induction r k s rule: match_all_from.induct)
  case (1 r k)
  then show ?case by (auto split: if_splits option.splits)
next
  case (2 r k c t)
  then obtain pre u where "t = pre @ u" "match_here r u \<noteq> None" by auto
  then have "c # t = (c # pre) @ u" by simp
  with \<open>match_here r u \<noteq> None\<close> show ?case by blast
next
  case (3 r c t)
  show ?case
  proof (cases "match_here r (c # t)")
    case None
    with 3 obtain pre u where "t = pre @ u" "match_here r u \<noteq> None" by auto
    then have "c # t = (c # pre) @ u" by simp
    with \<open>match_here r u \<noteq> None\<close> show ?thesis by blast
  next
    case (Some a)
    then have "c # t = [] @ (c # t) \<and> match_here r (c # t) \<noteq> None" by simp
    then show ?thesis by blast
  qed
qed

lemma split_on_head: "\<exists>h rest post. split_on sep s = h # rest \<and> s = h @ post"
proof (induction s)
  case Nil
  then show ?case by simp
next
  case (Cons c t)
  then obtain h rest post where "split_on sep t = h # rest" "t = h @ post" by blast
  then show ?case by (cases "c = sep") auto
qed

lemma split_on_part: "sec \<in> set (split_on sep s) \<Longrightarrow> \<exists>pre post. s = pre @ sec @ post"
proof (induction s arbitrary: sec)
  case Nil
  then show ?case by simp
next
  case (Cons c t)
  from split_on_head[of sep t] obtain h rest post where
    h: "split_on sep t = h # rest" "t = h @ post" by blast
  show ?case
  proof (cases "c = sep")
    case True
    with Cons.prems have "sec = [] \<or> sec \<in> set (split_on sep t)" by simp
    then show ?thesis
    proof
      assume "sec = []"
      then have "c # t = [] @ sec @ (c # t)" by simp
      then show ?thesis by blast
    next
      assume "sec \<in> set (split_on sep t)"
      from Cons.IH[OF this] obtain pre post' where "t = pre @ sec @ post'" by blast
      then have "c # t = (c # pre) @ sec @ post'" by simp
      then show ?thesis by blast
    qed
  next
    case False
    with Cons.prems h have "sec = c # h \<or> sec \<in> set rest" by simp
    then show ?thesis
    proof
      assume "sec = c # h"
      with h(2) have "c # t = [] @ sec @ post" by simp
      then show ?thesis by blast
    next
      assume "sec \<in> set rest"
      with h(1) have "sec \<in> set (split_on sep t)" by simp
      from Cons.IH[OF this] obtain pre post' where "t = pre @ sec @ post'" by blast
      then have "c # t = (c # pre) @ sec @ post'" by simp
      then show ?thesis by blast
    qed
  qed
qed

lemma CRS_anchor_free: "anchor_free CRS"
  by (simp add: CRS_def digit_def)

lemma section_course_test:
  assumes "sec \<in> set (split_on sep s)" "match_all COURSE_REGEX sec \<noteq> []"
  shows "regex_test COURSE_REGEX s"
proof -
  from split_on_part[OF assms(1)] obtain pre post where s: "s = pre @ sec @ post" by blast
  from assms(2) match_all_from_suffix[of COURSE_REGEX 0 sec] obtain p u where
    u: "sec = p @ u" "match_here COURSE_REGEX u \<noteq> None" by (auto simp: match_all_def)
  have "anchor_free COURSE_REGEX" by (simp add: COURSE_REGEX_def CRS_anchor_free)
  from match_here_extend[OF this u(2), of post]
  have "regex_exec COURSE_REGEX ((pre @ p) @ (u @ post)) \<noteq> None" by (rule regex_exec_suffix)
  with s u(1) show ?thesis by (simp add: regex_test_def)
qed

lemma ids_inv_insert: "ids_inv C ids \<Longrightarrow> ids_inv C (insert (edgeArrowId a b) ids)"
  using arrow_has_dash[of a b] by (auto simp: ids_inv_def)

lemma addEdges_ids:
  "ids_inv C (snd ps) \<Longrightarrow>
   ids_inv C (snd (addEdges srcs tgt ps)) \<and> (\<exists>suf. fst (addEdges srcs tgt ps) = fst ps @ suf)"
proof (induction srcs arbitrary: ps)
  case Nil
  then show ?case by simp
next
  case (Cons src srcs)
  obtain els ids where ps: "ps = (els, ids)" by (cases ps)
  show ?case
  proof (cases "src \<in> ids \<and> edgeArrowId src tgt \<notin> ids \<and> edgeArrowId tgt src \<notin> ids")
    case True
    let ?ps1 = "(els @ [Edge (newEdge src tgt (Some (edgeArrowId src tgt)))],
                 insert (edgeArrowId src tgt) ids)"
    from Cons.prems ps have "ids_inv C (snd ?ps1)" by (simp add: ids_inv_insert)
    from Cons.IH[OF this] obtain suf where
      "ids_inv C (snd (addEdges srcs tgt ?ps1))" "fst (addEdges srcs tgt ?ps1) = fst ?ps1 @ suf"
      by blast
    with True ps show ?thesis by (simp add: Let_def)
  next
    case False
    with Cons.IH[OF Cons.prems] ps show ?thesis by (auto simp: Let_def)
  qed
qed

lemma secondPass_push_map:
  "map_of (secondPass_push cid sec sp) =
     (map_of sp)(cid \<mapsto> (case map_of sp cid of None \<Rightarrow> [] | Some old \<Rightarrow> old) @ [sec])"
  by (cases "map_of sp cid") (auto simp: secondPass_push_def Let_def update_conv')

lemma secondPass_push_deferred:
  "deferred_in (secondPass_push cid sec sp) cid sec"
  "deferred_in sp k s \<Longrightarrow> deferred_in (secondPass_push cid sec sp) k s"
  by (auto simp: deferred_in_def secondPass_push_map)

lemma firstPass_sections_ids:
  assumes "ids_inv C (snd ps)" "deferred_ok S sp" "set secs \<subseteq> S"
  shows "ids_inv C (snd (fst (firstPass_sections secs cid (ps, sp)))) \<and>
         deferred_ok S (snd (firstPass_sections secs cid (ps, sp))) \<and>
         (\<forall>k s. deferred_in sp k s \<longrightarrow> deferred_in (snd (firstPass_sections secs cid (ps, sp))) k s) \<and>
         (\<forall>s \<in> set secs. 1 < length (match_all COURSE_REGEX s) \<longrightarrow>
              deferred_in (snd (firstPass_sections secs cid (ps, sp))) cid s)"
  using assms
proof (induction secs arbitrary: ps sp)
  case Nil
  then show ?case by simp
next
  case (Cons sec secs)
  from Cons.prems have sub: "set secs \<subseteq> S" and sec: "sec \<in> S" by simp_all
  let ?cm = "match_all COURSE_REGEX sec"
  consider "?cm = []" | "?cm \<noteq> []" "length ?cm = 1" | "?cm \<noteq> []" "length ?cm \<noteq> 1" by blast
  then show ?case
  proof cases
    case 1
    with Cons.IH[OF Cons.prems(1,2) sub] show ?thesis by simp
  next
    case 2
    from addEdges_ids[OF Cons.prems(1), of ?cm cid] have "ids_inv C (snd (addEdges ?cm cid ps))"
      by simp
    from Cons.IH[OF this Cons.prems(2) sub] 2 show ?thesis by (simp add: Let_def)
  next
    case 3
    let ?sp1 = "secondPass_push cid sec sp"
    from secondPass_push_ok[OF Cons.prems(2) sec 3(1)] have ok: "deferred_ok S ?sp1" .
    note IH = Cons.IH[OF Cons.prems(1) ok sub]
    have step: "firstPass_sections (sec # secs) cid (ps, sp) = firstPass_sections secs cid (ps, ?sp1)"
      using 3 by (simp add: Let_def)
    show ?thesis unfolding step
    proof (intro conjI allI impI ballI)
      show "ids_inv C (snd (fst (firstPass_sections secs cid (ps, ?sp1))))" using IH by blast
      show "deferred_ok S (snd (firstPass_sections secs cid (ps, ?sp1)))" using IH by blast
    next
      fix k s assume "deferred_in sp k s"
      then have "deferred_in ?sp1 k s" by (rule secondPass_push_deferred(2))
      with IH show "deferred_in (snd (firstPass_sections secs cid (ps, ?sp1))) k s" by blast
    next
      fix s assume s: "s \<in> set (sec # secs)" "1 < length (match_all COURSE_REGEX s)"
      show "deferred_in (snd (firstPass_sections secs cid (ps, ?sp1))) cid s"
      proof (cases "s \<in> set secs")
        case True
        with IH s(2) show ?thesis by blast
      next
        case False
        with s have "s = sec" by simp
        then have "deferred_in ?sp1 cid s" by (simp add: secondPass_push_deferred(1))
        with IH show ?thesis by blast
      qed
    qed
  qed
qed

lemma firstPass_ids:
  assumes "ids_inv C (snd ps)" "deferred_ok S sp" "set (all_sections cs) \<subseteq> S"
  shows "ids_inv C (snd (fst (firstPass cs (ps, sp)))) \<and>
         deferred_ok S (snd (firstPass cs (ps, sp))) \<and>
         (\<forall>k s. deferred_in sp k s \<longrightarrow> deferred_in (snd (firstPass cs (ps, sp))) k s) \<and>
         (\<forall>d \<in> set cs. regex_test COURSE_REGEX (prerequisite d) \<longrightarrow>
            (\<forall>s \<in> set (split_on CHR '';'' (prerequisite d)). 1 < length (match_all COURSE_REGEX s) \<longrightarrow>
               deferred_in (snd (firstPass cs (ps, sp))) (course_id d) s))"
  using assms
proof (induction cs arbitrary: ps sp)
  case Nil
  then show ?case by simp
next
  case (Cons d cs)
  from Cons.prems(3) have sub: "set (all_sections cs) \<subseteq> S"
    and here: "set (split_on CHR '';'' (prerequisite d)) \<subseteq> S"
    by (simp_all add: all_sections_def)
  show ?case
  proof (cases "regex_test COURSE_REGEX (prerequisite d)")
    case False
    with Cons.IH[OF Cons.prems(1,2) sub] show ?thesis by simp
  next
    case True
    obtain ps' sp' where r: "firstPass_sections (split_on CHR '';'' (prerequisite d)) (course_id d) (ps, sp) = (ps', sp')"
      by (cases "firstPass_sections (split_on CHR '';'' (prerequisite d)) (course_id d) (ps, sp)")
    from firstPass_sections_ids[OF Cons.prems(1,2) here, of "course_id d"] r
    have f1: "ids_inv C (snd ps')" and f2: "deferred_ok S sp'"
      and f3: "\<And>k s. deferred_in sp k s \<Longrightarrow> deferred_in sp' k s"
      and f4: "\<And>s. s \<in> set (split_on CHR '';'' (prerequisite d)) \<Longrightarrow>
                 1 < length (match_all COURSE_REGEX s) \<Longrightarrow> deferred_in sp' (course_id d) s"
      by simp_all
    note IH = Cons.IH[OF f1 f2 sub]
    have step: "firstPass (d # cs) (ps, sp) = firstPass cs (ps', sp')" using True r by simp
    show ?thesis unfolding step
    proof (intro conjI allI impI ballI)
      show "ids_inv C (snd (fst (firstPass cs (ps', sp'))))" using IH by blast
      show "deferred_ok S (snd (firstPass cs (ps', sp')))" using IH by blast
    next
      fix k s assume "deferred_in sp k s"
      then have "deferred_in sp' k s" by (rule f3)
      with IH show "deferred_in (snd (firstPass cs (ps', sp'))) k s" by blast
    next
      fix x s assume x: "x \<in> set (d # cs)" "regex_test COURSE_REGEX (prerequisite x)"
        "s \<in> set (split_on CHR '';'' (prerequisite x))" "1 < length (match_all COURSE_REGEX s)"
      show "deferred_in (snd (firstPass cs (ps', sp'))) (course_id x) s"
      proof (cases "x \<in> set cs")
        case True
        with IH x(2,3,4) show ?thesis by blast
      next
        case False
        with x(1) have "x = d" by simp
        with f4 x(3,4) have "deferred_in sp' (course_id x) s" by simp
        with IH show ?thesis by blast
      qed
    qed
  qed
qed

lemma present_filter:
  assumes inv: "ids_inv C ids" and acc: "accepted_match sec = Some ms"
  shows "filter (\<lambda>m. m \<in> ids) (tl ms) = filter (\<lambda>m. m \<in> C) (tl ms)"
proof (rule filter_cong[OF refl])
  fix m assume m: "m \<in> set (tl ms)"
  from acc have "(case str_match TRIPLE_EITHER_REGEX sec of Some m \<Rightarrow> Some m
            | None \<Rightarrow> str_match DOUBLE_EITHER_REGEX sec) = Some ms"
    by (auto simp: accepted_match_def Let_def split: if_splits)
  from either_captures_chars[OF this] m have "CHR ''-'' \<notin> set m" by simp
  with inv show "(m \<in> ids) = (m \<in> C)" by (auto simp: ids_inv_def)
qed

lemma secondPass_section_ok:
  assumes inv: "ids_inv C (snd (fst st))" and ne: "match_all COURSE_REGEX sec \<noteq> []"
  shows "\<exists>st'. secondPass_section nanoid mode crs sec st = Inr st' \<and> ids_inv C (snd (fst st')) \<and>
               (\<exists>suf. fst (fst st') = fst (fst st) @ suf)"
proof -
  obtain els ids k where st: "st = ((els, ids), k)" by (cases st) auto
  from inv st have i: "ids_inv C ids" by simp
  show ?thesis
  proof (cases "accepted_match sec")
    case None
    from addEdges_ids[of C "(els, ids)" "match_all COURSE_REGEX sec" crs] i
    obtain suf ids' where a: "addEdges (match_all COURSE_REGEX sec) crs (els, ids) = (els @ suf, ids')"
      "ids_inv C ids'"
      by (cases "addEdges (match_all COURSE_REGEX sec) crs (els, ids)") auto
    show ?thesis
      unfolding st secondPass_section_unmatched[OF ne None]
      using a i by (cases "mode = ''aggressively''") auto
  next
    case (Some ms)
    from addEdges_ids[of C "(els, ids)" "tl ms" crs] i
    obtain suf ids' where a: "addEdges (tl ms) crs (els, ids) = (els @ suf, ids')" "ids_inv C ids'"
      by (cases "addEdges (tl ms) crs (els, ids)") auto
    show ?thesis
      unfolding st secondPass_section_matched[OF ne Some]
      using a i by (auto simp: Let_def)
  qed
qed

lemma secondPass_section_gate:
  assumes inv: "ids_inv C (snd (fst st))" and ne: "match_all COURSE_REGEX sec \<noteq> []"
    and acc: "accepted_match sec = Some ms"
    and reqs: "reqs = filter (\<lambda>m. m \<in> C) (tl ms)" and more: "1 < length reqs"
  shows "\<exists>st' k. secondPass_section nanoid mode crs sec st = Inr st' \<and>
           fst (fst st') = fst (fst st) @ gate_block (nanoid k) crs sec reqs"
proof -
  obtain els ids k where st: "st = ((els, ids), k)" by (cases st) auto
  from inv st have i: "ids_inv C ids" by simp
  from present_filter[OF i acc] reqs have f: "filter (\<lambda>m. m \<in> ids) (tl ms) = reqs" by simp
  from more have n1: "length reqs \<noteq> 1" by simp
  have "secondPass_section nanoid mode crs sec st =
          Inr ((els @ gate_block (nanoid k) crs sec reqs, ids), k + 1)"
    unfolding st secondPass_section_matched[OF ne acc]
    using more n1 by (simp add: Let_def f gate_block_def newConditionalNode_def)
  then show ?thesis using st by auto
qed

lemma requiredEdges_direct:
  "set reqs \<subseteq> ids \<Longrightarrow>
   requiredEdges reqs crs sec (els, ids) = Inr (els @ direct_block crs sec reqs, ids)"
  by (induction reqs arbitrary: els) (auto simp: direct_block_def Let_def)

lemma parse_courses_section_cases:
  assumes "match_all COURSE_REGEX sec \<noteq> []"
  shows "parse_courses_section mode crs sec (els, ids) =
           (case accepted_match sec of
              None \<Rightarrow> if mode = ''aggressively''
                       then Inr (addEdges (match_all COURSE_REGEX sec) crs (els, ids))
                       else Inr (els, ids)
            | Some ms \<Rightarrow>
                if filter (\<lambda>m. m \<in> ids) (tl ms) \<noteq> []
                then Inr (els @ direct_block crs sec (filter (\<lambda>m. m \<in> ids) (tl ms)), ids)
                else if mode = ''aggressively'' then Inr (addEdges (tl ms) crs (els, ids))
                else Inr (els, ids))"
proof (cases "accepted_match sec")
  case None
  with assms show ?thesis
    by (auto simp: parse_courses_section_def accepted_match_def Let_def split: option.splits if_splits)
next
  case (Some ms)
  let ?matches = "(case str_match TRIPLE_EITHER_REGEX sec of
                       Some m \<Rightarrow> Some m | None \<Rightarrow> str_match DOUBLE_EITHER_REGEX sec)"
  from Some have m: "?matches = Some ms"
    and len: "length ms = length (match_all COURSE_REGEX sec) + 1"
    by (auto simp: accepted_match_def Let_def split: if_splits)
  have req: "requiredEdges (filter (\<lambda>m. m \<in> ids) (tl ms)) crs sec (els, ids)
       = Inr (els @ direct_block crs sec (filter (\<lambda>m. m \<in> ids) (tl ms)), ids)"
    by (rule requiredEdges_direct) auto
  show ?thesis
    unfolding parse_courses_section_def
    using assms len by (simp add: m Let_def Some req)
qed

lemma parse_courses_section_ok:
  assumes inv: "ids_inv C (snd st)" and ne: "match_all COURSE_REGEX sec \<noteq> []"
  shows "\<exists>st'. parse_courses_section mode crs sec st = Inr st' \<and> ids_inv C (snd st') \<and>
               (\<exists>suf. fst st' = fst st @ suf)"
proof -
  obtain els ids where st: "st = (els, ids)" by (cases st)
  from inv st have i: "ids_inv C ids" by simp
  show ?thesis
  proof (cases "accepted_match sec")
    case None
    from addEdges_ids[of C "(els, ids)" "match_all COURSE_REGEX sec" crs] i
    obtain suf ids' where a: "addEdges (match_all COURSE_REGEX sec) crs (els, ids) = (els @ suf, ids')"
      "ids_inv C ids'"
      by (cases "addEdges (match_all COURSE_REGEX sec) crs (els, ids)") auto
    show ?thesis
      unfolding st parse_courses_section_cases[OF ne] None
      using a i by (cases "mode = ''aggressively''") auto
  next
    case (Some ms)
    from addEdges_ids[of C "(els, ids)" "tl ms" crs] i
    obtain suf ids' where a: "addEdges (tl ms) crs (els, ids) = (els @ suf, ids')" "ids_inv C ids'"
      by (cases "addEdges (tl ms) crs (els, ids)") auto
    show ?thesis
      unfolding st parse_courses_section_cases[OF ne] Some
      using a i by auto
  qed
qed

lemma parse_courses_section_direct:
  assumes inv: "ids_inv C (snd st)" and ne: "match_all COURSE_REGEX sec \<noteq> []"
    and acc: "accepted_match sec = Some ms"
    and reqs: "reqs = filter (\<lambda>m. m \<in> C) (tl ms)" and more: "1 < length reqs"
  shows "\<exists>st' (k::nat). parse_courses_section mode crs sec st = Inr st' \<and>
           fst st' = fst st @ direct_block crs sec reqs"
proof -
  obtain els ids where st: "st = (els, ids)" by (cases st)
  from inv st have i: "ids_inv C ids" by simp
  from present_filter[OF i acc] reqs have f: "filter (\<lambda>m. m \<in> ids) (tl ms) = reqs" by simp
  from more have "reqs \<noteq> []" by auto
  then have "parse_courses_section mode crs sec st = Inr (els @ direct_block crs sec reqs, ids)"
    unfolding st parse_courses_section_cases[OF ne] acc by (simp add: f)
  then show ?thesis using st by auto
qed

lemma secondPass_sections_block:
  assumes acc: "accepted_match sec0 = Some ms"
    and reqs: "reqs = filter (\<lambda>m. m \<in> C) (tl ms)" and more: "1 < length reqs"
  shows "ids_inv C (snd (fst st)) \<Longrightarrow> \<forall>s \<in> set secs. match_all COURSE_REGEX s \<noteq> [] \<Longrightarrow>
     \<exists>st'. secondPass_sections nanoid mode crs secs st = Inr st' \<and> ids_inv C (snd (fst st')) \<and>
           (\<exists>suf. fst (fst st') = fst (fst st) @ suf) \<and>
           (sec0 \<in> set secs \<longrightarrow>
              (\<exists>pre post k. fst (fst st') = pre @ gate_block (nanoid k) crs sec0 reqs @ post))"
proof (induction secs arbitrary: st)
  case Nil
  then show ?case by simp
next
  case (Cons sec secs)
  from Cons.prems have T: "match_all COURSE_REGEX sec \<noteq> []"
    and rest: "\<forall>s \<in> set secs. match_all COURSE_REGEX s \<noteq> []" by simp_all
  from secondPass_section_ok[OF Cons.prems(1) T, of nanoid mode crs] obtain st1 suf1 where
    s1: "secondPass_section nanoid mode crs sec st = Inr st1" "ids_inv C (snd (fst st1))"
      "fst (fst st1) = fst (fst st) @ suf1" by blast
  from Cons.IH[OF s1(2) rest] obtain st' suf2 where
    s2: "secondPass_sections nanoid mode crs secs st1 = Inr st'" "ids_inv C (snd (fst st'))"
      "fst (fst st') = fst (fst st1) @ suf2"
    and blk: "sec0 \<in> set secs \<longrightarrow>
              (\<exists>pre post k. fst (fst st') = pre @ gate_block (nanoid k) crs sec0 reqs @ post)"
    by blast
  have run: "secondPass_sections nanoid mode crs (sec # secs) st = Inr st'"
    using s1(1) s2(1) by simp
  have app: "\<exists>suf. fst (fst st') = fst (fst st) @ suf" using s1(3) s2(3) by simp
  have "\<exists>pre post k. fst (fst st') = pre @ gate_block (nanoid k) crs sec0 reqs @ post"
    if t: "sec0 \<in> set (sec # secs)"
  proof (cases "sec0 \<in> set secs")
    case True
    with blk show ?thesis by simp
  next
    case False
    with t have eq: "sec = sec0" by simp
    from secondPass_section_gate[OF Cons.prems(1) T[unfolded eq] acc reqs more, of nanoid mode crs]
      s1(1) eq
    obtain k where "fst (fst st1) = fst (fst st) @ gate_block (nanoid k) crs sec0 reqs" by auto
    with s2(3) have "fst (fst st') = fst (fst st) @ gate_block (nanoid k) crs sec0 reqs @ suf2"
      by simp
    then show ?thesis by blast
  qed
  with run s2(2) app show ?case by blast
qed

lemma secondPass_entries_block:
  assumes acc: "accepted_match sec0 = Some ms"
    and reqs: "reqs = filter (\<lambda>m. m \<in> C) (tl ms)" and more: "1 < length reqs"
  shows "ids_inv C (snd (fst st)) \<Longrightarrow>
     \<forall>(c, ss) \<in> set sp. \<forall>s \<in> set ss. match_all COURSE_REGEX s \<noteq> [] \<Longrightarrow>
     \<exists>st'. secondPass_entries nanoid mode sp st = Inr st' \<and> ids_inv C (snd (fst st')) \<and>
           (\<exists>suf. fst (fst st') = fst (fst st) @ suf) \<and>
           ((\<exists>ss. (crs0, ss) \<in> set sp \<and> sec0 \<in> set ss) \<longrightarrow>
              (\<exists>pre post k. fst (fst st') = pre @ gate_block (nanoid k) crs0 sec0 reqs @ post))"
proof (induction sp arbitrary: st)
  case Nil
  then show ?case by simp
next
  case (Cons entry sp)
  obtain crs secs where entry: "entry = (crs, secs)" by (cases entry)
  from Cons.prems(2) entry have here: "\<forall>s \<in> set secs. match_all COURSE_REGEX s \<noteq> []"
    and rest: "\<forall>(c, ss) \<in> set sp. \<forall>s \<in> set ss. match_all COURSE_REGEX s \<noteq> []" by simp_all
  from secondPass_sections_block[OF acc reqs more Cons.prems(1) here, of nanoid mode crs]
  obtain st1 suf1 where
    s1: "secondPass_sections nanoid mode crs secs st = Inr st1" "ids_inv C (snd (fst st1))"
      "fst (fst st1) = fst (fst st) @ suf1"
    and b1: "sec0 \<in> set secs \<longrightarrow>
             (\<exists>pre post k. fst (fst st1) = pre @ gate_block (nanoid k) crs sec0 reqs @ post)"
    by blast
  from Cons.IH[OF s1(2) rest] obtain st' suf2 where
    s2: "secondPass_entries nanoid mode sp st1 = Inr st'" "ids_inv C (snd (fst st'))"
      "fst (fst st') = fst (fst st1) @ suf2"
    and b2: "(\<exists>ss. (crs0, ss) \<in> set sp \<and> sec0 \<in> set ss) \<longrightarrow>
             (\<exists>pre post k. fst (fst st') = pre @ gate_block (nanoid k) crs0 sec0 reqs @ post)"
    by blast
  have run: "secondPass_entries nanoid mode (entry # sp) st = Inr st'"
    using s1(1) s2(1) entry by simp
  have app: "\<exists>suf. fst (fst st') = fst (fst st) @ suf" using s1(3) s2(3) by simp
  have "\<exists>pre post k. fst (fst st') = pre @ gate_block (nanoid k) crs0 sec0 reqs @ post"
    if t: "\<exists>ss. (crs0, ss) \<in> set (entry # sp) \<and> sec0 \<in> set ss"
  proof (cases "\<exists>ss. (crs0, ss) \<in> set sp \<and> sec0 \<in> set ss")
    case True
    with b2 show ?thesis by simp
  next
    case False
    with t entry have "crs = crs0 \<and> sec0 \<in> set secs" by auto
    with b1 obtain pre post k where
      "fst (fst st1) = pre @ gate_block (nanoid k) crs0 sec0 reqs @ post" by blast
    with s2(3) have "fst (fst st') = pre @ gate_block (nanoid k) crs0 sec0 reqs @ (post @ suf2)"
      by simp
    then show ?thesis by blast
  qed
  with run s2(2) app show ?case by blast
qed

lemma parse_courses_sections_block:
  assumes acc: "accepted_match sec0 = Some ms"
    and reqs: "reqs = filter (\<lambda>m. m \<in> C) (tl ms)" and more: "1 < length reqs"
  shows "ids_inv C (snd st) \<Longrightarrow> \<forall>s \<in> set secs. match_all COURSE_REGEX s \<noteq> [] \<Longrightarrow>
     \<exists>st'. parse_courses_sections mode crs secs st = Inr st' \<and> ids_inv C (snd st') \<and>
           (\<exists>suf. fst st' = fst st @ suf) \<and>
           (sec0 \<in> set secs \<longrightarrow> (\<exists>pre post. fst st' = pre @ direct_block crs sec0 reqs @ post))"
proof (induction secs arbitrary: st)
  case Nil
  then show ?case by simp
next
  case (Cons sec secs)
  from Cons.prems have T: "match_all COURSE_REGEX sec \<noteq> []"
    and rest: "\<forall>s \<in> set secs. match_all COURSE_REGEX s \<noteq> []" by simp_all
  from parse_courses_section_ok[OF Cons.prems(1) T, of mode crs] obtain st1 suf1 where
    s1: "parse_courses_section mode crs sec st = Inr st1" "ids_inv C (snd st1)"
      "fst st1 = fst st @ suf1" by blast
  from Cons.IH[OF s1(2) rest] obtain st' suf2 where
    s2: "parse_courses_sections mode crs secs st1 = Inr st'" "ids_inv C (snd st')"
      "fst st' = fst st1 @ suf2"
    and blk: "sec0 \<in> set secs \<longrightarrow> (\<exists>pre post. fst st' = pre @ direct_block crs sec0 reqs @ post)"
    by blast
  have run: "parse_courses_sections mode crs (sec # secs) st = Inr st'"
    using s1(1) s2(1) by simp
  have app: "\<exists>suf. fst st' = fst st @ suf" using s1(3) s2(3) by simp
  have "\<exists>pre post. fst st' = pre @ direct_block crs sec0 reqs @ post"
    if t: "sec0 \<in> set (sec # secs)"
  proof (cases "sec0 \<in> set secs")
    case True
    with blk show ?thesis by simp
  next
    case False
    with t have eq: "sec = sec0" by simp
    from parse_courses_section_direct[OF Cons.prems(1) T[unfolded eq] acc reqs more, of mode crs]
      s1(1) eq
    have "fst st1 = fst st @ direct_block crs sec0 reqs" by auto
    with s2(3) have "fst st' = fst st @ direct_block crs sec0 reqs @ suf2" by simp
    then show ?thesis by blast
  qed
  with run s2(2) app show ?case by blast
qed

lemma parse_courses_entries_block:
  assumes acc: "accepted_match sec0 = Some ms"
    and reqs: "reqs = filter (\<lambda>m. m \<in> C) (tl ms)" and more: "1 < length reqs"
  shows "ids_inv C (snd st) \<Longrightarrow>
     \<forall>(c, ss) \<in> set sp. \<forall>s \<in> set ss. match_all COURSE_REGEX s \<noteq> [] \<Longrightarrow>
     \<exists>st'. parse_courses_entries mode sp st = Inr st' \<and> ids_inv C (snd st') \<and>
           (\<exists>suf. fst st' = fst st @ suf) \<and>
           ((\<exists>ss. (crs0, ss) \<in> set sp \<and> sec0 \<in> set ss) \<longrightarrow>
              (\<exists>pre post. fst st' = pre @ direct_block crs0 sec0 reqs @ post))"
proof (induction sp arbitrary: st)
  case Nil
  then show ?case by simp
next
  case (Cons entry sp)
  obtain crs secs where entry: "entry = (crs, secs)" by (cases entry)
  from Cons.prems(2) entry have here: "\<forall>s \<in> set secs. match_all COURSE_REGEX s \<noteq> []"
    and rest: "\<forall>(c, ss) \<in> set sp. \<forall>s \<in> set ss. match_all COURSE_REGEX s \<noteq> []" by simp_all
  from parse_courses_sections_block[OF acc reqs more Cons.prems(1) here, of mode crs]
  obtain st1 suf1 where
    s1: "parse_courses_sections mode crs secs st = Inr st1" "ids_inv C (snd st1)"
      "fst st1 = fst st @ suf1"
    and b1: "sec0 \<in> set secs \<longrightarrow> (\<exists>pre post. fst st1 = pre @ direct_block crs sec0 reqs @ post)"
    by blast
  from Cons.IH[OF s1(2) rest] obtain st' suf2 where
    s2: "parse_courses_entries mode sp st1 = Inr st'" "ids_inv C (snd st')"
      "fst st' = fst st1 @ suf2"
    and b2: "(\<exists>ss. (crs0, ss) \<in> set sp \<and> sec0 \<in> set ss) \<longrightarrow>
             (\<exists>pre post. fst st' = pre @ direct_block crs0 sec0 reqs @ post)"
    by blast
  have run: "parse_courses_entries mode (entry # sp) st = Inr st'"
    using s1(1) s2(1) entry by simp
  have app: "\<exists>suf. fst st' = fst st @ suf" using s1(3) s2(3) by simp
  have "\<exists>pre post. fst st' = pre @ direct_block crs0 sec0 reqs @ post"
    if t: "\<exists>ss. (crs0, ss) \<in> set (entry # sp) \<and> sec0 \<in> set ss"
  proof (cases "\<exists>ss. (crs0, ss) \<in> set sp \<and> sec0 \<in> set ss")
    case True
    with b2 show ?thesis by simp
  next
    case False
    with t entry have "crs = crs0 \<and> sec0 \<in> set secs" by auto
    with b1 obtain pre post where "fst st1 = pre @ direct_block crs0 sec0 reqs @ post" by blast
    with s2(3) have "fst st' = pre @ direct_block crs0 sec0 reqs @ (post @ suf2)" by simp
    then show ?thesis by blast
  qed
  with run s2(2) app show ?case by blast
qed

lemma firstPass_deferred:
  assumes d: "d \<in> set courseData"
    and sec: "sec \<in> set (split_on CHR '';'' (prerequisite d))"
    and many: "1 < length (match_all COURSE_REGEX sec)"
    and fp: "firstPass courseData
               ((map (\<lambda>c. Node (newCourseNode c)) courseData, set (map course_id courseData)), [])
             = (ps, sp)"
  shows "ids_inv (set (map course_id courseData)) (snd ps)"
    and "\<forall>(c, ss) \<in> set sp. \<forall>s \<in> set ss. match_all COURSE_REGEX s \<noteq> []"
    and "\<exists>ss. (course_id d, ss) \<in> set sp \<and> sec \<in> set ss"
proof -
  let ?C = "set (map course_id courseData)"
  let ?els = "map (\<lambda>c. Node (newCourseNode c)) courseData"
  have i0: "ids_inv ?C (snd (?els, ?C))" by (simp add: ids_inv_def)
  have d0: "deferred_ok UNIV []" by (simp add: deferred_ok_def)
  from many have ne: "match_all COURSE_REGEX sec \<noteq> []" by auto
  from section_course_test[OF sec ne] have test: "regex_test COURSE_REGEX (prerequisite d)" .
  from firstPass_ids[OF i0 d0, of courseData] fp
  have r: "ids_inv ?C (snd ps)" "deferred_ok UNIV sp"
    "\<forall>d \<in> set courseData. regex_test COURSE_REGEX (prerequisite d) \<longrightarrow>
        (\<forall>s \<in> set (split_on CHR '';'' (prerequisite d)). 1 < length (match_all COURSE_REGEX s) \<longrightarrow>
           deferred_in sp (course_id d) s)"
    by simp_all
  from r(1) show "ids_inv ?C (snd ps)" .
  from r(2) show "\<forall>(c, ss) \<in> set sp. \<forall>s \<in> set ss. match_all COURSE_REGEX s \<noteq> []"
    by (auto simp: deferred_ok_def)
  from r(3) d test sec many have "deferred_in sp (course_id d) sec" by blast
  then show "\<exists>ss. (course_id d, ss) \<in> set sp \<and> sec \<in> set ss"
    by (auto simp: deferred_in_def dest: map_of_SomeD)
qed

text \<open>
  Claim C4, as the code has it. Let a section of the prerequisite text of a course of
  the list be matched by the triple pattern with every course id of the section
  captured, and let more than one of the captures be a course id of the list;
  \<open>alreadyRequired\<close> lists those captures, in their order and as often as they occur.
  Then \<^verbatim>\<open>generateInitialElements\<close> returns, whatever the list and the mode, and its
  result holds, side by side and in this order, one \<^verbatim>\<open>or\<close> gate, the edge from the
  gate to the course, and one edge into the gate for every entry of \<open>alreadyRequired\<close>;
  the body of the second pass appends these elements and nothing else for the section. The
  definition of \<^verbatim>\<open>parse-courses.js\<close> returns as well, and in place of the gate its
  result holds one edge to the course itself for every entry of \<open>alreadyRequired\<close>.
  Neither definition looks at the edges that other sections have given the course.
\<close>

theorem or_gate_block_for_present_alternatives:
  assumes d: "d \<in> set courseData"
    and sec: "sec \<in> set (split_on CHR '';'' (prerequisite d))"
    and triple: "str_match TRIPLE_EITHER_REGEX sec = Some ms"
    and captured: "length ms = length (match_all COURSE_REGEX sec) + 1"
    and present: "alreadyRequired = filter (\<lambda>m. m \<in> set (map course_id courseData)) (tl ms)"
    and more: "1 < length alreadyRequired"
  shows "(\<exists>pre post k. generateInitialElements nanoid courseData ambiguousHandling
            = Inr (pre @ gate_block (nanoid k) (course_id d) sec alreadyRequired @ post)) \<and>
         (\<forall>elements elementIds k. filter (\<lambda>m. m \<in> elementIds) (tl ms) = alreadyRequired \<longrightarrow>
            secondPass_section nanoid ambiguousHandling (course_id d) sec ((elements, elementIds), k)
              = Inr ((elements @ gate_block (nanoid k) (course_id d) sec alreadyRequired,
                      elementIds), k + 1)) \<and>
         (\<exists>pre post. parse_courses_generateInitialElements courseData ambiguousHandling
            = Inr (pre @ direct_block (course_id d) sec alreadyRequired @ post)) \<and>
         (\<forall>elements elementIds. filter (\<lambda>m. m \<in> elementIds) (tl ms) = alreadyRequired \<longrightarrow>
            parse_courses_section ambiguousHandling (course_id d) sec (elements, elementIds)
              = Inr (elements @ direct_block (course_id d) sec alreadyRequired, elementIds))"
proof -
  let ?C = "set (map course_id courseData)"
  let ?els = "map (\<lambda>c. Node (newCourseNode c)) courseData"
  from more present have "1 < length (tl ms)"
    by (metis length_filter_le less_le_trans)
  with captured have many: "1 < length (match_all COURSE_REGEX sec)" by simp
  then have ne: "match_all COURSE_REGEX sec \<noteq> []" by auto
  from triple captured have acc: "accepted_match sec = Some ms"
    by (simp add: accepted_match_def)
  obtain ps sp where fp: "firstPass courseData ((?els, ?C), []) = (ps, sp)"
    by (cases "firstPass courseData ((?els, ?C), [])")
  note f = firstPass_deferred[OF d sec many fp]
  have new: "\<exists>pre post k. generateInitialElements nanoid courseData ambiguousHandling
            = Inr (pre @ gate_block (nanoid k) (course_id d) sec alreadyRequired @ post)"
  proof -
    have "ids_inv ?C (snd (fst (ps, 0::nat)))" using f(1) by simp
    from secondPass_entries_block[OF acc present more this f(2),
        of nanoid ambiguousHandling "course_id d"] f(3)
    obtain st' pre post k where
      run: "secondPass_entries nanoid ambiguousHandling sp (ps, 0) = Inr st'"
      and blk: "fst (fst st') = pre @ gate_block (nanoid k) (course_id d) sec alreadyRequired @ post"
      by blast
    obtain els ids n where st': "st' = ((els, ids), n)" by (cases st') auto
    have "generateInitialElements nanoid courseData ambiguousHandling = Inr els"
      unfolding generateInitialElements_def Let_def fp using run st' by simp
    with blk st' show ?thesis by auto
  qed
  have old: "\<exists>pre post. parse_courses_generateInitialElements courseData ambiguousHandling
            = Inr (pre @ direct_block (course_id d) sec alreadyRequired @ post)"
  proof -
    from parse_courses_entries_block[OF acc present more f(1) f(2),
        of ambiguousHandling "course_id d"] f(3)
    obtain st' pre post where
      run: "parse_courses_entries ambiguousHandling sp ps = Inr st'"
      and blk: "fst st' = pre @ direct_block (course_id d) sec alreadyRequired @ post"
      by blast
    obtain els ids where st': "st' = (els, ids)" by (cases st')
    have "parse_courses_generateInitialElements courseData ambiguousHandling = Inr els"
      unfolding parse_courses_generateInitialElements_def Let_def fp using run st' by simp
    with blk st' show ?thesis by auto
  qed
  have new_step: "secondPass_section nanoid ambiguousHandling (course_id d) sec ((elements, elementIds), k)
              = Inr ((elements @ gate_block (nanoid k) (course_id d) sec alreadyRequired,
                      elementIds), k + 1)"
    if "filter (\<lambda>m. m \<in> elementIds) (tl ms) = alreadyRequired" for elements elementIds k
  proof -
    from more have "length alreadyRequired \<noteq> 1" by simp
    with more that show ?thesis
      unfolding secondPass_section_matched[OF ne acc]
      by (simp add: Let_def gate_block_def newConditionalNode_def gateEdges_map)
  qed
  have old_step: "parse_courses_section ambiguousHandling (course_id d) sec (elements, elementIds)
              = Inr (elements @ direct_block (course_id d) sec alreadyRequired, elementIds)"
    if "filter (\<lambda>m. m \<in> elementIds) (tl ms) = alreadyRequired" for elements elementIds
  proof -
    from more have "alreadyRequired \<noteq> []" by auto
    with that show ?thesis
      unfolding parse_courses_section_cases[OF ne] acc by simp
  qed
  from new new_step old old_step show ?thesis by blast
qed

subsection \<open>The example course lists\<close>

lemma math125_tokens:
  "match_all COURSE_REGEX ''Either MATH 124 or MATH 134'' = [''MATH 124'', ''MATH 134'']"
  by code_simp

lemma math125_match:
  "accepted_match ''Either MATH 124 or MATH 134''
     = Some [''Either MATH 124 or MATH 134'', ''MATH 124'', ''MATH 134'']"
  by code_simp

lemma math125_and_tokens:
  "match_all COURSE_REGEX ''MATH 124 and MATH 134'' = [''MATH 124'', ''MATH 134'']"
  by code_simp

lemma math125_and_match: "accepted_match ''MATH 124 and MATH 134'' = None"
  by code_simp

lemma cse332_tokens:
  "match_all COURSE_REGEX ''CSE 311, CSE 321, or CSE 331'' = [''CSE 311'', ''CSE 321'', ''CSE 331'']"
  by code_simp

lemma cse332_match:
  "str_match TRIPLE_EITHER_REGEX ''CSE 311, CSE 321, or CSE 331''
     = Some [''CSE 311, CSE 321, or CSE 331'', ''CSE 311'', ''CSE 321'', ''CSE 331'']"
  by code_simp

lemma cse332_not_concurrent:
  "\<not> regex_test CONCURRENT_REGEX ''CSE 311, CSE 321, or CSE 331''"
  by code_simp

lemma cse332_flow:
  "generateInitialElements nanoid_example cse_courses ''conservative''
     = Inr (map (\<lambda>c. Node (newCourseNode c)) cse_courses @
            [Node (newConditionalNode gate_or ''x''),
             Edge (newEdge ''OR-x'' ''CSE 332'' None),
             Edge (newEdge ''CSE 311'' ''OR-x'' None),
             Edge (newEdge ''CSE 321'' ''OR-x'' None)])"
  by code_simp

lemma biol_flow:
  "generateInitialElements nanoid_example biol_courses ''conservative''
     = Inr (map (\<lambda>c. Node (newCourseNode c)) biol_courses @
            [Edge (newEdge ''BIOL 200'' ''BIOL 180'' None),
             Edge (newEdge ''BIOL 200'' ''BIOL 180'' None),
             Edge (newEdge ''BIOL 180'' ''BIOL 200'' None)])"
  by code_simp

lemma course_id_examples:
  "is_course_id ''CSE 142''" "is_course_id ''CSE 143''" "is_course_id ''E E 215''"
  "\<not> is_course_id ''CSE 142 -> CSE 143''"
  by code_simp+

theorem edgeArrowId_injective_witness:
  "is_course_id ''CSE 142'' \<and> is_course_id ''CSE 143'' \<and>
   edgeArrowId ''CSE 142'' ''CSE 143'' = ''CSE 142'' @ '' -> '' @ ''CSE 143'' \<and>
   edgeArrowId ''CSE 142'' ''CSE 143'' \<noteq> edgeArrowId ''CSE 143'' ''CSE 142''"
proof -
  note t = edgeArrowId_injective[OF course_id_examples(1) course_id_examples(2)
      course_id_examples(2) course_id_examples(1)]
  from t have e: "edgeArrowId ''CSE 142'' ''CSE 143'' = ''CSE 142'' @ '' -> '' @ ''CSE 143''"
    by (rule conjunct1)
  from t have "(edgeArrowId ''CSE 142'' ''CSE 143'' = edgeArrowId ''CSE 143'' ''CSE 142'')
      = (''CSE 142'' = ''CSE 143'' \<and> ''CSE 143'' = ''CSE 142'')"
    by (rule conjunct2)
  moreover have "\<not> (''CSE 142'' = ''CSE 143'' \<and> ''CSE 143'' = ''CSE 142'')" by simp
  ultimately have ne: "edgeArrowId ''CSE 142'' ''CSE 143'' \<noteq> edgeArrowId ''CSE 143'' ''CSE 142''"
    by blast
  from e ne course_id_examples(1,2) show ?thesis by blast
qed

text \<open>
  Claim C3 as stated fails on the course \<^verbatim>\<open>MATH 125\<close> alone: in the aggressive
  mode no edge is added either.
\<close>

theorem aggressive_either_counterexample:
  "generateInitialElements nanoid_example [math125] ''aggressively''
     = Inr [Node (newCourseNode math125)] \<and>
   edge_pairs [Node (newCourseNode math125)] = []"
  by (rule conjI, code_simp, simp)

theorem matched_clause_without_alternatives_witness:
  "1 < length (match_all COURSE_REGEX ''Either MATH 124 or MATH 134'') \<and>
   accepted_match ''Either MATH 124 or MATH 134''
     = Some [''Either MATH 124 or MATH 134'', ''MATH 124'', ''MATH 134''] \<and>
   set (tl [''Either MATH 124 or MATH 134'', ''MATH 124'', ''MATH 134'']) \<inter> {''MATH 125''} = {} \<and>
   secondPass_section nanoid_example ''aggressively'' ''MATH 125'' ''Either MATH 124 or MATH 134''
       (([Node (newCourseNode math125)], {''MATH 125''}), 0)
     = Inr (([Node (newCourseNode math125)], {''MATH 125''}), 0) \<and>
   secondPass_section nanoid_example ''conservative'' ''MATH 125'' ''Either MATH 124 or MATH 134''
       (([Node (newCourseNode math125)], {''MATH 125''}), 0)
     = Inr (([Node (newCourseNode math125)], {''MATH 125''}), 0)"
proof -
  have t: "1 < length (match_all COURSE_REGEX ''Either MATH 124 or MATH 134'')"
    by (simp add: math125_tokens)
  have a: "set (tl [''Either MATH 124 or MATH 134'', ''MATH 124'', ''MATH 134'']) \<inter> {''MATH 125''} = {}"
    by simp
  from matched_clause_without_alternatives[OF t math125_match a] t math125_match a
  show ?thesis by blast
qed

lemma cse332_either:
  "\<lparr> course_id = ''CSE 332'', prerequisite = ''CSE 311, CSE 321, or CSE 331'' \<rparr> \<in> set cse_courses"
  "''CSE 311, CSE 321, or CSE 331''
     \<in> set (split_on CHR '';'' (prerequisite
          \<lparr> course_id = ''CSE 332'', prerequisite = ''CSE 311, CSE 321, or CSE 331'' \<rparr>))"
  "[''CSE 311'', ''CSE 321'']
     = filter (\<lambda>m. m \<in> set (map course_id cse_courses))
         (tl [''CSE 311, CSE 321, or CSE 331'', ''CSE 311'', ''CSE 321'', ''CSE 331''])"
  by (simp_all add: cse_courses_def)

theorem or_gate_block_for_present_alternatives_witness:
  "(\<exists>pre post k. generateInitialElements nanoid_example cse_courses ''conservative''
      = Inr (pre @ gate_block (nanoid_example k) ''CSE 332'' ''CSE 311, CSE 321, or CSE 331''
                     [''CSE 311'', ''CSE 321''] @ post)) \<and>
   secondPass_section nanoid_example ''conservative'' ''CSE 332'' ''CSE 311, CSE 321, or CSE 331''
       ((map (\<lambda>c. Node (newCourseNode c)) cse_courses, {''CSE 311'', ''CSE 321'', ''CSE 332''}), 0)
     = Inr ((map (\<lambda>c. Node (newCourseNode c)) cse_courses
               @ gate_block (nanoid_example 0) ''CSE 332'' ''CSE 311, CSE 321, or CSE 331''
                   [''CSE 311'', ''CSE 321''],
             {''CSE 311'', ''CSE 321'', ''CSE 332''}), 0 + 1) \<and>
   (\<exists>pre post. parse_courses_generateInitialElements cse_courses ''conservative''
      = Inr (pre @ direct_block ''CSE 332'' ''CSE 311, CSE 321, or CSE 331''
                     [''CSE 311'', ''CSE 321''] @ post)) \<and>
   parse_courses_section ''conservative'' ''CSE 332'' ''CSE 311, CSE 321, or CSE 331''
       (map (\<lambda>c. Node (newCourseNode c)) cse_courses, {''CSE 311'', ''CSE 321'', ''CSE 332''})
     = Inr (map (\<lambda>c. Node (newCourseNode c)) cse_courses
              @ direct_block ''CSE 332'' ''CSE 311, CSE 321, or CSE 331'' [''CSE 311'', ''CSE 321''],
            {''CSE 311'', ''CSE 321'', ''CSE 332''})"
proof -
  have c: "length [''CSE 311, CSE 321, or CSE 331'', ''CSE 311'', ''CSE 321'', ''CSE 331'']
             = length (match_all COURSE_REGEX ''CSE 311, CSE 321, or CSE 331'') + 1"
    by (simp add: cse332_tokens)
  have m: "1 < length [''CSE 311'', ''CSE 321'']" by simp
  have p: "filter (\<lambda>m. m \<in> {''CSE 311'', ''CSE 321'', ''CSE 332''})
         (tl [''CSE 311, CSE 321, or CSE 331'', ''CSE 311'', ''CSE 321'', ''CSE 331''])
       = [''CSE 311'', ''CSE 321'']"
    by simp
  have cid: "course_id \<lparr> course_id = ''CSE 332'', prerequisite = ''CSE 311, CSE 321, or CSE 331'' \<rparr>
               = ''CSE 332''" by simp
  note t = or_gate_block_for_present_alternatives[OF cse332_either(1) cse332_either(2)
      cse332_match c cse332_either(3) m, of nanoid_example "''conservative''", unfolded cid]
  from t have a: "\<exists>pre post k. generateInitialElements nanoid_example cse_courses ''conservative''
      = Inr (pre @ gate_block (nanoid_example k) ''CSE 332'' ''CSE 311, CSE 321, or CSE 331''
                     [''CSE 311'', ''CSE 321''] @ post)"
    by (rule conjunct1)
  from t have b: "\<forall>elements elementIds k.
      filter (\<lambda>m. m \<in> elementIds)
        (tl [''CSE 311, CSE 321, or CSE 331'', ''CSE 311'', ''CSE 321'', ''CSE 331''])
        = [''CSE 311'', ''CSE 321''] \<longrightarrow>
      secondPass_section nanoid_example ''conservative'' ''CSE 332'' ''CSE 311, CSE 321, or CSE 331''
          ((elements, elementIds), k)
        = Inr ((elements @ gate_block (nanoid_example k) ''CSE 332'' ''CSE 311, CSE 321, or CSE 331''
                            [''CSE 311'', ''CSE 321''], elementIds), k + 1)"
    by (rule conjunct1[OF conjunct2])
  from t have e: "\<exists>pre post. parse_courses_generateInitialElements cse_courses ''conservative''
      = Inr (pre @ direct_block ''CSE 332'' ''CSE 311, CSE 321, or CSE 331''
                     [''CSE 311'', ''CSE 321''] @ post)"
    by (rule conjunct1[OF conjunct2[OF conjunct2]])
  from t have g: "\<forall>elements elementIds.
      filter (\<lambda>m. m \<in> elementIds)
        (tl [''CSE 311, CSE 321, or CSE 331'', ''CSE 311'', ''CSE 321'', ''CSE 331''])
        = [''CSE 311'', ''CSE 321''] \<longrightarrow>
      parse_courses_section ''conservative'' ''CSE 332'' ''CSE 311, CSE 321, or CSE 331''
          (elements, elementIds)
        = Inr (elements @ direct_block ''CSE 332'' ''CSE 311, CSE 321, or CSE 331''
                            [''CSE 311'', ''CSE 321''], elementIds)"
    by (rule conjunct2[OF conjunct2[OF conjunct2]])
  from b p have b': "secondPass_section nanoid_example ''conservative'' ''CSE 332''
       ''CSE 311, CSE 321, or CSE 331''
       ((map (\<lambda>c. Node (newCourseNode c)) cse_courses, {''CSE 311'', ''CSE 321'', ''CSE 332''}), 0)
     = Inr ((map (\<lambda>c. Node (newCourseNode c)) cse_courses
               @ gate_block (nanoid_example 0) ''CSE 332'' ''CSE 311, CSE 321, or CSE 331''
                   [''CSE 311'', ''CSE 321''],
             {''CSE 311'', ''CSE 321'', ''CSE 332''}), 0 + 1)"
    by blast
  from g p have g': "parse_courses_section ''conservative'' ''CSE 332'' ''CSE 311, CSE 321, or CSE 331''
       (map (\<lambda>c. Node (newCourseNode c)) cse_courses, {''CSE 311'', ''CSE 321'', ''CSE 332''})
     = Inr (map (\<lambda>c. Node (newCourseNode c)) cse_courses
              @ direct_block ''CSE 332'' ''CSE 311, CSE 321, or CSE 331'' [''CSE 311'', ''CSE 321''],
            {''CSE 311'', ''CSE 321'', ''CSE 332''})"
    by blast
  from a b' e g' show ?thesis by blast
qed

text \<open>
  Claim C4 as stated fails in three ways. For the course list of the claim the
  definition of \<^verbatim>\<open>parse-courses.js\<close> adds the two direct edges and no gate. With
  the section \<^verbatim>\<open>CSE 311\<close> in front of the alternatives, the definition with gates
  adds the direct edge from \<^verbatim>\<open>CSE 311\<close> to \<^verbatim>\<open>CSE 332\<close> beside the gate. With
  \<^verbatim>\<open>CSE 311\<close> named twice among the alternatives, the gate has two edges from
  \<^verbatim>\<open>CSE 311\<close>.
\<close>

theorem or_gate_counterexample:
  "parse_courses_generateInitialElements cse_courses ''conservative''
     = Inr (map (\<lambda>c. Node (newCourseNode c)) cse_courses @
            [Edge (newEdge ''CSE 311'' ''CSE 332'' None),
             Edge (newEdge ''CSE 321'' ''CSE 332'' None)]) \<and>
   generateInitialElements nanoid_example cse_mixed_courses ''conservative''
     = Inr (map (\<lambda>c. Node (newCourseNode c)) cse_mixed_courses @
            [Edge (newEdge ''CSE 311'' ''CSE 332'' None),
             Node (newConditionalNode gate_or ''x''),
             Edge (newEdge ''OR-x'' ''CSE 332'' None),
             Edge (newEdge ''CSE 311'' ''OR-x'' None),
             Edge (newEdge ''CSE 321'' ''OR-x'' None)]) \<and>
   generateInitialElements nanoid_example cse_repeat_courses ''conservative''
     = Inr (map (\<lambda>c. Node (newCourseNode c)) cse_repeat_courses @
            [Node (newConditionalNode gate_or ''x''),
             Edge (newEdge ''OR-x'' ''CSE 332'' None),
             Edge (newEdge ''CSE 311'' ''OR-x'' None),
             Edge (newEdge ''CSE 311'' ''OR-x'' None),
             Edge (newEdge ''CSE 321'' ''OR-x'' None)])"
  by (intro conjI; code_simp)

text \<open>
  Claim C8 as stated fails on the course \<^verbatim>\<open>MATH 125\<close> with the prerequisite
  \<^verbatim>\<open>MATH 124 and MATH 134\<close>: the section has no accepted match and holds two course
  ids, and in the aggressive mode no edge is added, since neither id is a node.
\<close>

theorem aggressive_unparsed_counterexample:
  "accepted_match ''MATH 124 and MATH 134'' = None \<and>
   match_all COURSE_REGEX ''MATH 124 and MATH 134'' = [''MATH 124'', ''MATH 134''] \<and>
   generateInitialElements nanoid_example [math125_and] ''aggressively''
     = Inr [Node (newCourseNode math125_and)] \<and>
   edge_pairs [Node (newCourseNode math125_and)] = []"
  by (intro conjI, rule math125_and_match, rule math125_and_tokens, code_simp, simp)

lemma addEdges_math125:
  "addEdges [''MATH 124'', ''MATH 134''] ''MATH 125'' ([], {''MATH 124'', ''MATH 125''})
     = ([Edge (newEdge ''MATH 124'' ''MATH 125'' (Some ''MATH 124 -> MATH 125''))],
        insert ''MATH 124 -> MATH 125'' {''MATH 124'', ''MATH 125''})"
  by (simp add: edgeArrowId_def Let_def)

theorem unparsed_clause_handling_witness:
  "1 < length (match_all COURSE_REGEX ''MATH 124 and MATH 134'') \<and>
   accepted_match ''MATH 124 and MATH 134'' = None \<and>
   secondPass_section nanoid_example ''conservative'' ''MATH 125'' ''MATH 124 and MATH 134''
       (([], {''MATH 124'', ''MATH 125''}), 0)
     = Inr (([], {''MATH 124'', ''MATH 125''}), 0) \<and>
   secondPass_section nanoid_example ''aggressively'' ''MATH 125'' ''MATH 124 and MATH 134''
       (([], {''MATH 124'', ''MATH 125''}), 0)
     = Inr (([Edge (newEdge ''MATH 124'' ''MATH 125'' (Some ''MATH 124 -> MATH 125''))],
             insert ''MATH 124 -> MATH 125'' {''MATH 124'', ''MATH 125''}), 0)"
proof -
  have t: "1 < length (match_all COURSE_REGEX ''MATH 124 and MATH 134'')"
    by (simp add: math125_and_tokens)
  have ne: "match_all COURSE_REGEX ''MATH 124 and MATH 134'' \<noteq> []"
    by (simp add: math125_and_tokens)
  from unparsed_clause_handling[OF t math125_and_match, of "''conservative''" nanoid_example
      "''MATH 125''" "[]" "{''MATH 124'', ''MATH 125''}" 0]
  have c: "secondPass_section nanoid_example ''conservative'' ''MATH 125'' ''MATH 124 and MATH 134''
       (([], {''MATH 124'', ''MATH 125''}), 0)
     = Inr (([], {''MATH 124'', ''MATH 125''}), 0)" by simp
  have a: "secondPass_section nanoid_example ''aggressively'' ''MATH 125'' ''MATH 124 and MATH 134''
       (([], {''MATH 124'', ''MATH 125''}), 0)
     = Inr (([Edge (newEdge ''MATH 124'' ''MATH 125'' (Some ''MATH 124 -> MATH 125''))],
             insert ''MATH 124 -> MATH 125'' {''MATH 124'', ''MATH 125''}), 0)"
    by (simp only: secondPass_section_unmatched[OF ne math125_and_match] math125_and_tokens
          addEdges_math125) simp
  from t math125_and_match c a show ?thesis by blast
qed

text \<open>
  Claim C2 as stated fails on a course whose prerequisite text names the course itself:
  the first pass adds an edge from the course to itself.
\<close>

theorem self_loop_counterexample:
  "generateInitialElements nanoid_example [self_course] ''conservative''
     = Inr [Node (newCourseNode self_course), Edge (newEdge ''BIOL 200'' ''BIOL 200'' None)] \<and>
   edge_pairs [Node (newCourseNode self_course), Edge (newEdge ''BIOL 200'' ''BIOL 200'' None)]
     = [(''BIOL 200'', ''BIOL 200'')]"
  by (rule conjI, code_simp, simp add: newEdge_def)

lemma cse14x_sections:
  "all_sections cse14x_courses = [[], ''CSE 142'', ''CSE 142 and CSE 143'', '' CSE 143'']"
  by (simp add: all_sections_def cse14x_courses_def)

lemma cse14x_matches:
  "accepted_match [] = None" "accepted_match ''CSE 142'' = None"
  "accepted_match ''CSE 142 and CSE 143'' = None" "accepted_match '' CSE 143'' = None"
  by code_simp+

lemma cse14x_no_required: "no_required_alternative cse14x_courses"
  by (simp add: no_required_alternative_def cse14x_sections cse14x_matches)

theorem guarded_edges_simple_witness:
  "no_required_alternative cse14x_courses \<and>
   (\<exists>els. generateInitialElements nanoid_example cse14x_courses ''aggressively'' = Inr els \<and>
          simple_edges els)"
  using guarded_edges_simple[OF cse14x_no_required] cse14x_no_required by blast

lemma cse14x_flow:
  "generateInitialElements nanoid_example cse14x_courses ''aggressively''
     = Inr (map (\<lambda>c. Node (newCourseNode c)) cse14x_courses @
            [Edge (newEdge ''CSE 142'' ''CSE 143'' None),
             Edge (newEdge ''CSE 143'' ''CSE 154'' None),
             Edge (newEdge ''CSE 142'' ''CSE 154'' None)])"
  by code_simp

section \<open>Properties of the metadata\<close>

lemma loop_Nil: "discoverMaxDepths_loop [] d nd = Some (Inr nd)"
  by (subst discoverMaxDepths_loop.simps) simp

lemma loop_Cons:
  "map_of nd p = Some m \<Longrightarrow>
   discoverMaxDepths_loop (p # rest) d nd =
     Option.bind
       (discoverMaxDepths_loop (outgoingNodes m) (d + 1)
          (AList.update p (m\<lparr>depth := max (depth m) (d + 1)\<rparr>) nd))
       (\<lambda>r. case r of Inl err \<Rightarrow> Some (Inl err)
                    | Inr nd' \<Rightarrow> discoverMaxDepths_loop rest d nd')"
  by (subst discoverMaxDepths_loop.simps) simp

lemma bump_facts:
  assumes m: "map_of nd p = Some m" and nd': "nd' = AList.update p (m\<lparr>depth := max (depth m) d\<rparr>) nd"
  shows "outs nd' = outs nd" "dom (map_of nd') = dom (map_of nd)"
    "dep nd' x = (if x = p then max (dep nd p) d else dep nd x)"
proof -
  have mo: "map_of nd' = (map_of nd)(p \<mapsto> m\<lparr>depth := max (depth m) d\<rparr>)"
    by (simp add: nd' update_conv')
  show "outs nd' = outs nd"
    by (rule ext) (simp add: outs_def mo m)
  show "dom (map_of nd') = dom (map_of nd)" using m by (auto simp: mo)
  show "dep nd' x = (if x = p then max (dep nd p) d else dep nd x)"
    by (simp add: dep_def mo m)
qed

lemma dfs_post_Nil: "dfs_post G [] d nd nd"
  by (simp add: dfs_post_def)

lemma dfs_loop_spec:
  assumes wfG: "wf {(v, u). v \<in> set (G u)}"
    and closedG: "\<forall>u. \<forall>v \<in> set (G u). v \<in> D"
  shows "set os \<subseteq> set (G u) \<Longrightarrow> outs nd1 = G \<Longrightarrow> dom (map_of nd1) = D \<Longrightarrow>
         \<exists>nd2. discoverMaxDepths_loop os d nd1 = Some (Inr nd2) \<and> outs nd2 = G \<and>
               dom (map_of nd2) = D \<and> dfs_post G os d nd1 nd2"
proof (induction u arbitrary: os d nd1 rule: wf_induct_rule[OF wfG])
  case (1 u)
  let ?R = "{(a, b). b \<in> set (G a)}"
  have conv: "{(v, u). v \<in> set (G u)} = ?R\<inverse>" by auto
  have acyc: "acyclic ?R" using wf_acyclic[OF wfG] unfolding conv by simp
  from "1.prems" show ?case
  proof (induction os arbitrary: nd1)
    case Nil
    then show ?case by (simp add: loop_Nil dfs_post_Nil)
  next
    case (Cons p rest)
    from Cons.prems have pu: "p \<in> set (G u)" and rest: "set rest \<subseteq> set (G u)" by simp_all
    from pu closedG Cons.prems(3) obtain m where m: "map_of nd1 p = Some m" by blast
    define nda where "nda = AList.update p (m\<lparr>depth := max (depth m) (d + 1)\<rparr>) nd1"
    note bf = bump_facts[OF m nda_def]
    from Cons.prems(2) m have gm: "outgoingNodes m = G p" by (auto simp: outs_def fun_eq_iff split: option.splits dest: spec[of _ p])
    have "(p, u) \<in> {(v, u). v \<in> set (G u)}" using pu by simp
    moreover have "outs nda = G" using bf(1) Cons.prems(2) by simp
    moreover have "dom (map_of nda) = D" using bf(2) Cons.prems(3) by simp
    ultimately have "\<exists>nd2. discoverMaxDepths_loop (G p) (d + 1) nda = Some (Inr nd2) \<and>
        outs nd2 = G \<and> dom (map_of nd2) = D \<and> dfs_post G (G p) (d + 1) nda nd2"
      by (intro "1.IH"[OF _ subset_refl])
    then obtain ndb where b: "discoverMaxDepths_loop (G p) (d + 1) nda = Some (Inr ndb)"
      "outs ndb = G" "dom (map_of ndb) = D" "dfs_post G (G p) (d + 1) nda ndb"
      by blast
    from Cons.IH[OF rest b(2,3)] obtain nd2 where c:
      "discoverMaxDepths_loop rest d ndb = Some (Inr nd2)" "outs nd2 = G" "dom (map_of nd2) = D"
      "dfs_post G rest d ndb nd2" by blast
    have run: "discoverMaxDepths_loop (p # rest) d nd1 = Some (Inr nd2)"
      using loop_Cons[OF m, of rest d] b(1) c(1) gm by (simp add: nda_def)
    from b(4) have b1: "\<And>x. dep nda x \<le> dep ndb x"
      and b2: "\<And>x. x \<in> set (G p) \<Longrightarrow> d + 1 + 1 \<le> dep ndb x"
      and b3: "\<And>x. dfs_ok G nda x \<Longrightarrow> dfs_ok G ndb x"
      and b4: "\<And>x. (\<forall>q \<in> set (G p). (q, x) \<notin> ?R\<^sup>*) \<Longrightarrow> dep ndb x = dep nda x"
      by (auto simp: dfs_post_def)
    from c(4) have c1: "\<And>x. dep ndb x \<le> dep nd2 x"
      and c2: "\<And>x. x \<in> set rest \<Longrightarrow> d + 1 \<le> dep nd2 x"
      and c3: "\<And>x. dfs_ok G ndb x \<Longrightarrow> dfs_ok G nd2 x"
      and c4: "\<And>x. (\<forall>q \<in> set rest. (q, x) \<notin> ?R\<^sup>*) \<Longrightarrow> dep nd2 x = dep ndb x"
      by (auto simp: dfs_post_def)
    have a1: "\<And>x. dep nd1 x \<le> dep nda x" by (simp add: bf(3))
    have p_self: "dep ndb p = dep nda p"
    proof (rule b4, rule ballI)
      fix q assume q: "q \<in> set (G p)"
      show "(q, p) \<notin> ?R\<^sup>*"
      proof
        assume "(q, p) \<in> ?R\<^sup>*"
        moreover from q have "(p, q) \<in> ?R" by simp
        ultimately have "(p, p) \<in> ?R\<^sup>+" by (rule rtrancl_into_trancl2[rotated])
        with acyc show False by (simp add: acyclic_def)
      qed
    qed
    have mono: "\<forall>x. dep nd1 x \<le> dep nd2 x"
      using a1 b1 c1 by (meson order_trans)
    have reach: "\<forall>x \<in> set (p # rest). d + 1 \<le> dep nd2 x"
    proof
      fix x assume "x \<in> set (p # rest)"
      then consider "x = p" | "x \<in> set rest" by auto
      then show "d + 1 \<le> dep nd2 x"
      proof cases
        case 1
        have "d + 1 \<le> dep nda p" by (simp add: bf(3))
        also have "\<dots> \<le> dep nd2 p" using b1 c1 by (meson order_trans)
        finally show ?thesis using 1 by simp
      next
        case 2
        then show ?thesis by (rule c2)
      qed
    qed
    have keep: "\<forall>x. dfs_ok G nd1 x \<longrightarrow> dfs_ok G nd2 x"
    proof (intro allI impI)
      fix x assume okx: "dfs_ok G nd1 x"
      have "dfs_ok G ndb x"
      proof (cases "x = p \<and> dep nd1 p < d + 1")
        case True
        then have dp: "dep nda p = d + 1" by (simp add: bf(3))
        with p_self have "dep ndb p = d + 1" by simp
        with b2 True show ?thesis by (auto simp: dfs_ok_def)
      next
        case False
        then have same: "dep nda x = dep nd1 x" by (auto simp: bf(3))
        have "dfs_ok G nda x"
          unfolding dfs_ok_def
        proof (intro impI ballI)
          fix y assume "0 < dep nda x" "y \<in> set (G x)"
          with okx same have "dep nd1 x + 1 \<le> dep nd1 y" by (simp add: dfs_ok_def)
          also have "\<dots> \<le> dep nda y" by (rule a1)
          finally show "dep nda x + 1 \<le> dep nda y" using same by simp
        qed
        then show ?thesis by (rule b3)
      qed
      then show "dfs_ok G nd2 x" by (rule c3)
    qed
    have frame: "\<forall>x. (\<forall>q \<in> set (p # rest). (q, x) \<notin> ?R\<^sup>*) \<longrightarrow> dep nd2 x = dep nd1 x"
    proof (intro allI impI)
      fix x assume far: "\<forall>q \<in> set (p # rest). (q, x) \<notin> ?R\<^sup>*"
      then have xp: "x \<noteq> p" by auto
      have "\<forall>q \<in> set (G p). (q, x) \<notin> ?R\<^sup>*"
      proof
        fix q assume q: "q \<in> set (G p)"
        show "(q, x) \<notin> ?R\<^sup>*"
        proof
          assume "(q, x) \<in> ?R\<^sup>*"
          moreover from q have "(p, q) \<in> ?R" by simp
          ultimately have "(p, x) \<in> ?R\<^sup>*" by (rule converse_rtrancl_into_rtrancl[rotated])
          with far show False by simp
        qed
      qed
      then have "dep ndb x = dep nda x" by (rule b4)
      moreover from far have "dep nd2 x = dep ndb x" by (intro c4) simp
      moreover from xp have "dep nda x = dep nd1 x" by (simp add: bf(3))
      ultimately show "dep nd2 x = dep nd1 x" by simp
    qed
    from mono reach keep frame have "dfs_post G (p # rest) d nd1 nd2"
      unfolding dfs_post_def by blast
    with run c(2,3) show ?case by blast
  qed
qed

lemma targets_of:
  "set (concat (map (\<lambda>e. case e of Edge ed \<Rightarrow> if source ed = k then [target ed] else []
                          | Node n \<Rightarrow> []) els))
     = {b. (k, b) \<in> set (edge_pairs els)}"
  by (induction els rule: edge_pairs.induct) auto

lemma sources_of:
  "set (concat (map (\<lambda>e. case e of Edge ed \<Rightarrow> if target ed = k then [source ed] else []
                          | Node n \<Rightarrow> []) els))
     = {a. (a, k) \<in> set (edge_pairs els)}"
  by (induction els rule: edge_pairs.induct) auto

lemma node_ids_elems: "k \<in> node_ids els \<Longrightarrow> k \<in> elem_id ` set els"
  by (auto simp: node_ids_def)

lemma getOutgoers_filter:
  "isNode n \<Longrightarrow>
   getOutgoers n els = filter (\<lambda>e. (elem_id n, elem_id e) \<in> set (edge_pairs els)) els"
  by (simp only: getOutgoers_def Let_def targets_of) simp

lemma getIncomers_filter:
  "isNode n \<Longrightarrow>
   getIncomers n els = filter (\<lambda>e. (elem_id e, elem_id n) \<in> set (edge_pairs els)) els"
  by (simp only: getIncomers_def Let_def sources_of) simp

lemma outgoingNodes_newData:
  assumes "isNode n" "graph_closed els"
  shows "set (outgoingNodes (newData n els)) = {b. (elem_id n, b) \<in> set (edge_pairs els)}"
proof -
  have "set (outgoingNodes (newData n els))
      = elem_id ` {e \<in> set els. (elem_id n, elem_id e) \<in> set (edge_pairs els)}"
    by (simp add: newData_def Let_def getOutgoers_filter[OF assms(1)])
  also have "\<dots> = {b. (elem_id n, b) \<in> set (edge_pairs els)}"
  proof (intro set_eqI iffI)
    fix b assume "b \<in> {b. (elem_id n, b) \<in> set (edge_pairs els)}"
    then have e: "(elem_id n, b) \<in> set (edge_pairs els)" by simp
    with assms(2) have "b \<in> node_ids els" by (auto simp: graph_closed_def)
    then obtain x where "x \<in> set els" "elem_id x = b" using node_ids_elems by blast
    with e show "b \<in> elem_id ` {e \<in> set els. (elem_id n, elem_id e) \<in> set (edge_pairs els)}"
      by auto
  qed auto
  finally show ?thesis .
qed

lemma incomingNodes_newData:
  assumes "isNode n" "graph_closed els"
  shows "incomingNodes (newData n els) = [] \<longleftrightarrow> (\<forall>a. (a, elem_id n) \<notin> set (edge_pairs els))"
proof -
  have "set (incomingNodes (newData n els))
      = elem_id ` {e \<in> set els. (elem_id e, elem_id n) \<in> set (edge_pairs els)}"
    by (simp add: newData_def Let_def getIncomers_filter[OF assms(1)])
  also have "\<dots> = {a. (a, elem_id n) \<in> set (edge_pairs els)}"
  proof (intro set_eqI iffI)
    fix a assume "a \<in> {a. (a, elem_id n) \<in> set (edge_pairs els)}"
    then have e: "(a, elem_id n) \<in> set (edge_pairs els)" by simp
    with assms(2) have "a \<in> node_ids els" by (auto simp: graph_closed_def)
    then obtain x where "x \<in> set els" "elem_id x = a" using node_ids_elems by blast
    with e show "a \<in> elem_id ` {e \<in> set els. (elem_id e, elem_id n) \<in> set (edge_pairs els)}"
      by auto
  qed auto
  finally have eq: "set (incomingNodes (newData n els)) = {a. (a, elem_id n) \<in> set (edge_pairs els)}" .
  show ?thesis
  proof
    assume "incomingNodes (newData n els) = []"
    with eq show "\<forall>a. (a, elem_id n) \<notin> set (edge_pairs els)" by auto
  next
    assume "\<forall>a. (a, elem_id n) \<notin> set (edge_pairs els)"
    with eq have "set (incomingNodes (newData n els)) = {}" by auto
    then show "incomingNodes (newData n els) = []" by simp
  qed
qed

lemma newData_cong:
  "isNode a \<Longrightarrow> isNode b \<Longrightarrow> elem_id a = elem_id b \<Longrightarrow> newData a els = newData b els"
  by (simp add: newData_def getIncomers_def getOutgoers_def getIncomingEdges_def
        getOutgoingEdges_def getConnectedEdges_def Let_def cong del: element.case_cong_weak)

lemma depth_newData: "depth (newData n els) = 0"
  by (simp add: newData_def Let_def)

lemma initialNodeData_spec:
  assumes "\<forall>n \<in> set nodes. isNode n"
  shows "(\<forall>n \<in> set nodes. map_of (fst (initialNodeData nodes els (nd, roots))) (elem_id n)
             = Some (newData n els)) \<and>
         (\<forall>k. k \<notin> elem_id ` set nodes \<longrightarrow>
             map_of (fst (initialNodeData nodes els (nd, roots))) k = map_of nd k) \<and>
         set (snd (initialNodeData nodes els (nd, roots)))
           = set roots \<union> {elem_id n | n. n \<in> set nodes \<and> incomingNodes (newData n els) = []}"
  using assms
proof (induction nodes arbitrary: nd roots)
  case Nil
  then show ?case by simp
next
  case (Cons n nodes)
  let ?nd1 = "AList.update (elem_id n) (newData n els) nd"
  let ?r1 = "if length (incomingNodes (newData n els)) = 0 then roots @ [elem_id n] else roots"
  have step: "initialNodeData (n # nodes) els (nd, roots) = initialNodeData nodes els (?nd1, ?r1)"
    by (simp add: Let_def)
  from Cons.prems have nn: "isNode n" and rest: "\<forall>n \<in> set nodes. isNode n" by simp_all
  note IH = Cons.IH[OF rest, of ?nd1 ?r1]
  from IH have i1: "\<And>x. x \<in> set nodes \<Longrightarrow>
        map_of (fst (initialNodeData nodes els (?nd1, ?r1))) (elem_id x) = Some (newData x els)"
    and i2: "\<And>k. k \<notin> elem_id ` set nodes \<Longrightarrow>
        map_of (fst (initialNodeData nodes els (?nd1, ?r1))) k = map_of ?nd1 k"
    and i3: "set (snd (initialNodeData nodes els (?nd1, ?r1)))
           = set ?r1 \<union> {elem_id n | n. n \<in> set nodes \<and> incomingNodes (newData n els) = []}"
    by blast+
  have a: "\<forall>x \<in> set (n # nodes). map_of (fst (initialNodeData (n # nodes) els (nd, roots))) (elem_id x)
             = Some (newData x els)"
  proof
    fix x assume x: "x \<in> set (n # nodes)"
    show "map_of (fst (initialNodeData (n # nodes) els (nd, roots))) (elem_id x) = Some (newData x els)"
    proof (cases "elem_id x \<in> elem_id ` set nodes")
      case True
      then obtain y where y: "y \<in> set nodes" "elem_id y = elem_id x" by auto
      from x Cons.prems have "isNode x" by auto
      moreover from y rest have "isNode y" by simp
      ultimately have "newData y els = newData x els" using y(2) by (intro newData_cong) simp_all
      with i1[OF y(1)] y(2) show ?thesis by (simp only: step)
    next
      case False
      with x have xn: "x = n" by auto
      from i2[OF False] xn show ?thesis by (simp only: step) (simp add: update_conv')
    qed
  qed
  have b: "\<forall>k. k \<notin> elem_id ` set (n # nodes) \<longrightarrow>
             map_of (fst (initialNodeData (n # nodes) els (nd, roots))) k = map_of nd k"
  proof (intro allI impI)
    fix k assume k: "k \<notin> elem_id ` set (n # nodes)"
    then have "k \<notin> elem_id ` set nodes" "k \<noteq> elem_id n" by auto
    with i2[of k] show "map_of (fst (initialNodeData (n # nodes) els (nd, roots))) k = map_of nd k"
      by (simp only: step) (simp add: update_conv')
  qed
  have c: "set (snd (initialNodeData (n # nodes) els (nd, roots)))
           = set roots \<union> {elem_id x | x. x \<in> set (n # nodes) \<and> incomingNodes (newData x els) = []}"
    unfolding step i3 by auto
  from a b c show ?case by blast
qed

lemma discoverRoots_spec:
  assumes wfG: "wf {(v, u). v \<in> set (G u)}"
    and closedG: "\<forall>u. \<forall>v \<in> set (G u). v \<in> D"
  shows "set rs \<subseteq> D \<Longrightarrow> outs nd1 = G \<Longrightarrow> dom (map_of nd1) = D \<Longrightarrow>
     \<exists>nd2. discoverRoots rs nd1 = Some (Inr nd2) \<and> outs nd2 = G \<and> dom (map_of nd2) = D \<and>
       (\<forall>x. dep nd1 x \<le> dep nd2 x) \<and>
       (\<forall>r \<in> set rs. \<forall>y \<in> set (G r). 1 \<le> dep nd2 y) \<and>
       (\<forall>x. dfs_ok G nd1 x \<longrightarrow> dfs_ok G nd2 x) \<and>
       (\<forall>x. (\<forall>r \<in> set rs. (r, x) \<notin> {(u, v). v \<in> set (G u)}\<^sup>+) \<longrightarrow> dep nd2 x = dep nd1 x)"
proof (induction rs arbitrary: nd1)
  case Nil
  then show ?case by simp
next
  case (Cons r rs)
  let ?R = "{(u, v). v \<in> set (G u)}"
  from Cons.prems have rD: "r \<in> D" and rest: "set rs \<subseteq> D" by simp_all
  from rD Cons.prems(3) obtain m where m: "map_of nd1 r = Some m" by blast
  with Cons.prems(2) have gm: "outgoingNodes m = G r"
    by (auto simp: outs_def fun_eq_iff split: option.splits dest: spec[of _ r])
  from dfs_loop_spec[OF wfG closedG subset_refl Cons.prems(2,3), of r 0]
  obtain nda where a: "discoverMaxDepths_loop (G r) 0 nd1 = Some (Inr nda)"
    "outs nda = G" "dom (map_of nda) = D" "dfs_post G (G r) 0 nd1 nda" by blast
  from a(4) have a1: "\<And>x. dep nd1 x \<le> dep nda x"
    and a2: "\<And>x. x \<in> set (G r) \<Longrightarrow> 1 \<le> dep nda x"
    and a3: "\<And>x. dfs_ok G nd1 x \<Longrightarrow> dfs_ok G nda x"
    and a4: "\<And>x. (\<forall>q \<in> set (G r). (q, x) \<notin> ?R\<^sup>*) \<Longrightarrow> dep nda x = dep nd1 x"
    by (auto simp: dfs_post_def)
  from Cons.IH[OF rest a(2,3)] obtain nd2 where b:
    "discoverRoots rs nda = Some (Inr nd2)" "outs nd2 = G" "dom (map_of nd2) = D"
    and b1: "\<And>x. dep nda x \<le> dep nd2 x"
    and b2: "\<And>r y. r \<in> set rs \<Longrightarrow> y \<in> set (G r) \<Longrightarrow> 1 \<le> dep nd2 y"
    and b3: "\<And>x. dfs_ok G nda x \<Longrightarrow> dfs_ok G nd2 x"
    and b4: "\<And>x. (\<forall>r \<in> set rs. (r, x) \<notin> ?R\<^sup>+) \<Longrightarrow> dep nd2 x = dep nda x"
    by blast
  have run: "discoverRoots (r # rs) nd1 = Some (Inr nd2)"
    using m gm a(1) b(1) by (simp add: discoverMaxDepths_def)
  have mono: "\<forall>x. dep nd1 x \<le> dep nd2 x" using a1 b1 by (meson order_trans)
  have reach: "\<forall>q \<in> set (r # rs). \<forall>y \<in> set (G q). 1 \<le> dep nd2 y"
  proof (intro ballI)
    fix q y assume q: "q \<in> set (r # rs)" and y: "y \<in> set (G q)"
    from q consider "q = r" | "q \<in> set rs" by auto
    then show "1 \<le> dep nd2 y"
    proof cases
      case 1
      with y have "1 \<le> dep nda y" by (intro a2) simp
      also have "\<dots> \<le> dep nd2 y" by (rule b1)
      finally show ?thesis .
    next
      case 2
      then show ?thesis using y by (rule b2)
    qed
  qed
  have keep: "\<forall>x. dfs_ok G nd1 x \<longrightarrow> dfs_ok G nd2 x" using a3 b3 by blast
  have frame: "\<forall>x. (\<forall>q \<in> set (r # rs). (q, x) \<notin> ?R\<^sup>+) \<longrightarrow> dep nd2 x = dep nd1 x"
  proof (intro allI impI)
    fix x assume far: "\<forall>q \<in> set (r # rs). (q, x) \<notin> ?R\<^sup>+"
    have "\<forall>q \<in> set (G r). (q, x) \<notin> ?R\<^sup>*"
    proof
      fix q assume q: "q \<in> set (G r)"
      show "(q, x) \<notin> ?R\<^sup>*"
      proof
        assume "(q, x) \<in> ?R\<^sup>*"
        moreover from q have "(r, q) \<in> ?R" by simp
        ultimately have "(r, x) \<in> ?R\<^sup>+" by (rule rtrancl_into_trancl2[rotated])
        with far show False by simp
      qed
    qed
    then have "dep nda x = dep nd1 x" by (rule a4)
    moreover from far have "dep nd2 x = dep nda x" by (intro b4) simp
    ultimately show "dep nd2 x = dep nd1 x" by simp
  qed
  from run b(2,3) mono reach keep frame show ?case by blast
qed

lemma finite_edge_pairs: "finite (set (edge_pairs els))"
  by simp

text \<open>
  Claim C5. On a list of elements whose edges join nodes of the list and form no cycle,
  \<^verbatim>\<open>newNodeData\<close> returns; in the metadata it returns, every node without an
  incoming edge has depth 0, and for every edge the depth of the target is at least the
  depth of the source plus one.
\<close>

theorem newNodeData_depths:
  assumes closed: "graph_closed elements"
    and acyc: "acyclic (set (edge_pairs elements))"
  shows "\<exists>nd. newNodeData elements = Some (Inr nd) \<and>
     (\<forall>k \<in> node_ids elements. \<exists>m. map_of nd k = Some m \<and>
        ((\<forall>a. (a, k) \<notin> set (edge_pairs elements)) \<longrightarrow> depth m = 0)) \<and>
     (\<forall>(u, v) \<in> set (edge_pairs elements).
        \<exists>mu mv. map_of nd u = Some mu \<and> map_of nd v = Some mv \<and> depth mu + 1 \<le> depth mv)"
proof -
  let ?E = "set (edge_pairs elements)"
  let ?D = "node_ids elements"
  let ?nodes = "filter isNode elements"
  obtain nd0 roots where init: "initialNodeData ?nodes elements ([], []) = (nd0, roots)"
    by (cases "initialNodeData ?nodes elements ([], [])")
  have allnodes: "\<forall>n \<in> set ?nodes. isNode n" by simp
  note spec = initialNodeData_spec[OF allnodes, of elements "[]" "[]", unfolded init fst_conv snd_conv]
  from spec have s1: "\<And>n. n \<in> set ?nodes \<Longrightarrow> map_of nd0 (elem_id n) = Some (newData n elements)"
    and s2: "\<And>k. k \<notin> elem_id ` set ?nodes \<Longrightarrow> map_of nd0 k = None"
    and s3: "set roots = {elem_id n | n. n \<in> set ?nodes \<and> incomingNodes (newData n elements) = []}"
    by auto
  have Dset: "?D = elem_id ` set ?nodes" by (simp add: node_ids_def)
  have dom0: "dom (map_of nd0) = ?D"
  proof (intro set_eqI iffI)
    fix k assume kd: "k \<in> dom (map_of nd0)"
    show "k \<in> ?D"
    proof (rule ccontr)
      assume "k \<notin> ?D"
      then have "map_of nd0 k = None" unfolding Dset by (rule s2)
      with kd show False by auto
    qed
  next
    fix k assume "k \<in> ?D"
    then obtain n where "n \<in> set ?nodes" "elem_id n = k" unfolding Dset by auto
    with s1 show "k \<in> dom (map_of nd0)" by auto
  qed
  define G where "G = outs nd0"
  have Gin: "set (G k) = {b. (k, b) \<in> ?E}" if "k \<in> ?D" for k
  proof -
    from that obtain n where n: "n \<in> set ?nodes" "elem_id n = k" unfolding Dset by auto
    then have "isNode n" by simp
    from outgoingNodes_newData[OF this closed] s1[OF n(1)] n(2) show ?thesis
      by (simp add: G_def outs_def)
  qed
  have Gout: "G k = []" if "k \<notin> ?D" for k
    using s2[of k] that unfolding Dset by (simp add: G_def outs_def)
  have R: "{(u, v). v \<in> set (G u)} = ?E"
  proof (intro set_eqI iffI)
    fix p assume "p \<in> {(u, v). v \<in> set (G u)}"
    then obtain u v where p: "p = (u, v)" "v \<in> set (G u)" by auto
    then have "u \<in> ?D" using Gout[of u] by (cases "u \<in> ?D") auto
    with p Gin show "p \<in> ?E" by auto
  next
    fix p assume pe: "p \<in> ?E"
    obtain u v where p: "p = (u, v)" by (cases p)
    with pe closed have "u \<in> ?D" by (auto simp: graph_closed_def)
    with pe p Gin show "p \<in> {(u, v). v \<in> set (G u)}" by auto
  qed
  have conv: "{(v, u). v \<in> set (G u)} = ?E\<inverse>" using R by auto
  have wfG: "wf {(v, u). v \<in> set (G u)}"
    unfolding conv using finite_edge_pairs acyc by (rule finite_acyclic_wf_converse)
  have wfE: "wf ?E" using finite_edge_pairs acyc by (rule finite_acyclic_wf)
  have closedG: "\<forall>u. \<forall>v \<in> set (G u). v \<in> ?D"
  proof (intro allI ballI)
    fix u v assume "v \<in> set (G u)"
    then have "(u, v) \<in> ?E" using R by auto
    with closed show "v \<in> ?D" by (auto simp: graph_closed_def)
  qed
  have dep0: "dep nd0 k = 0" for k
  proof (cases "k \<in> ?D")
    case True
    then obtain n where n: "n \<in> set ?nodes" "elem_id n = k" unfolding Dset by auto
    with s1[OF n(1)] show ?thesis by (simp add: dep_def depth_newData)
  next
    case False
    with s2[of k] show ?thesis unfolding Dset by (simp add: dep_def)
  qed
  have rootsD: "set roots \<subseteq> ?D" unfolding s3 Dset by auto
  have roots_iff: "k \<in> set roots \<longleftrightarrow> (\<forall>a. (a, k) \<notin> ?E)" if "k \<in> ?D" for k
  proof
    assume "k \<in> set roots"
    then obtain n where n: "n \<in> set ?nodes" "elem_id n = k" "incomingNodes (newData n elements) = []"
      unfolding s3 by auto
    then have "isNode n" by simp
    from incomingNodes_newData[OF this closed] n show "\<forall>a. (a, k) \<notin> ?E" by simp
  next
    assume no: "\<forall>a. (a, k) \<notin> ?E"
    from that obtain n where n: "n \<in> set ?nodes" "elem_id n = k" unfolding Dset by auto
    then have "isNode n" by simp
    from incomingNodes_newData[OF this closed] n no
    have "incomingNodes (newData n elements) = []" by simp
    with n show "k \<in> set roots" unfolding s3 by auto
  qed
  from discoverRoots_spec[OF wfG closedG rootsD G_def[symmetric] dom0]
  obtain nd where run: "discoverRoots roots nd0 = Some (Inr nd)"
    and outs: "outs nd = G" and dom: "dom (map_of nd) = ?D"
    and reach: "\<And>r y. r \<in> set roots \<Longrightarrow> y \<in> set (G r) \<Longrightarrow> 1 \<le> dep nd y"
    and keep: "\<And>x. dfs_ok G nd0 x \<Longrightarrow> dfs_ok G nd x"
    and frame: "\<And>x. (\<forall>r \<in> set roots. (r, x) \<notin> {(u, v). v \<in> set (G u)}\<^sup>+) \<Longrightarrow> dep nd x = dep nd0 x"
    by blast
  have res: "newNodeData elements = Some (Inr nd)"
    by (simp add: newNodeData_def init run)
  have ok: "dfs_ok G nd x" for x
    by (rule keep) (simp add: dfs_ok_def dep0)
  have root0: "dep nd k = 0" if "\<forall>a. (a, k) \<notin> ?E" for k
  proof -
    have "\<forall>r \<in> set roots. (r, k) \<notin> ?E\<^sup>+"
    proof
      fix r show "(r, k) \<notin> ?E\<^sup>+"
      proof
        assume "(r, k) \<in> ?E\<^sup>+"
        then obtain a where "(a, k) \<in> ?E" by (meson tranclE)
        with that show False by simp
      qed
    qed
    then have "dep nd k = dep nd0 k" unfolding R[symmetric] by (rule frame)
    then show ?thesis by (simp add: dep0)
  qed
  have pos: "k \<in> ?D \<longrightarrow> (\<forall>a. (a, k) \<notin> ?E) \<or> 0 < dep nd k" for k
  proof (induction k rule: wf_induct_rule[OF wfE])
    case (1 k)
    show ?case
    proof (intro impI)
      assume kD: "k \<in> ?D"
      show "(\<forall>a. (a, k) \<notin> ?E) \<or> 0 < dep nd k"
      proof (cases "\<forall>a. (a, k) \<notin> ?E")
        case True
        then show ?thesis by simp
      next
        case False
        then obtain p where pk: "(p, k) \<in> ?E" by auto
        with closed have pD: "p \<in> ?D" by (auto simp: graph_closed_def)
        from pk pD have kG: "k \<in> set (G p)" using Gin by simp
        from "1.IH"[OF pk] pD have "(\<forall>a. (a, p) \<notin> ?E) \<or> 0 < dep nd p" by simp
        then consider "\<forall>a. (a, p) \<notin> ?E" | "0 < dep nd p" by auto
        then have "0 < dep nd k"
        proof cases
          case 1
          with pD have "p \<in> set roots" by (simp add: roots_iff)
          from reach[OF this kG] show ?thesis by simp
        next
          case 2
          with ok[of p] kG show ?thesis by (auto simp: dfs_ok_def)
        qed
        then show ?thesis by simp
      qed
    qed
  qed
  have nodes: "\<forall>k \<in> ?D. \<exists>m. map_of nd k = Some m \<and> ((\<forall>a. (a, k) \<notin> ?E) \<longrightarrow> depth m = 0)"
  proof
    fix k assume kD: "k \<in> ?D"
    with dom obtain m where m: "map_of nd k = Some m" by blast
    with root0[of k] have "(\<forall>a. (a, k) \<notin> ?E) \<longrightarrow> depth m = 0" by (simp add: dep_def)
    with m show "\<exists>m. map_of nd k = Some m \<and> ((\<forall>a. (a, k) \<notin> ?E) \<longrightarrow> depth m = 0)" by blast
  qed
  have edges: "\<forall>(u, v) \<in> ?E. \<exists>mu mv. map_of nd u = Some mu \<and> map_of nd v = Some mv \<and>
                 depth mu + 1 \<le> depth mv"
  proof (intro ballI, clarify)
    fix u v assume e: "(u, v) \<in> ?E"
    with closed have uD: "u \<in> ?D" and vD: "v \<in> ?D" by (auto simp: graph_closed_def)
    with dom obtain mu mv where mu: "map_of nd u = Some mu" and mv: "map_of nd v = Some mv"
      by blast
    from e uD have vG: "v \<in> set (G u)" using Gin by simp
    have "dep nd u + 1 \<le> dep nd v"
    proof (cases "\<forall>a. (a, u) \<notin> ?E")
      case True
      then have "dep nd u = 0" by (rule root0)
      moreover from True uD have "u \<in> set roots" by (simp add: roots_iff)
      from reach[OF this vG] have "1 \<le> dep nd v" .
      ultimately show ?thesis by simp
    next
      case False
      with pos[of u] uD have "0 < dep nd u" by blast
      with ok[of u] vG show ?thesis by (auto simp: dfs_ok_def)
    qed
    with mu mv show "\<exists>mu mv. map_of nd u = Some mu \<and> map_of nd v = Some mv \<and>
                 depth mu + 1 \<le> depth mv" by (simp add: dep_def)
  qed
  from res nodes edges show ?thesis by blast
qed

subsection \<open>The example flow\<close>

lemma gate_flow_pairs:
  "edge_pairs (gate_flow ty) =
     [(''CSE 142'', ''GATE-g1''), (''CSE 143'', ''GATE-g1''), (''CSE 154'', ''GATE-g1''),
      (''GATE-g1'', ''CSE 373'')]"
  by (simp add: gate_flow_def example_course_def example_edge_def newEdge_def)

lemma gate_flow_closed: "graph_closed (gate_flow ty)"
  unfolding graph_closed_def gate_flow_pairs
  by (simp add: node_ids_def gate_flow_def example_course_def example_edge_def example_gate_def
        newCourseNode_def newConditionalNode_def)

lemma gate_flow_acyclic: "acyclic (set (edge_pairs (gate_flow ty)))"
  unfolding gate_flow_pairs by (simp add: rtrancl_insert wf_acyclic)

lemma gate_flow_newNodeData: "newNodeData (gate_flow gate_and) = Some (Inr gate_flow_data)"
  by code_simp

lemma gate_flow_newElemIndexes: "newElemIndexes (gate_flow gate_and) = gate_flow_indexes"
  by code_simp

theorem newNodeData_depths_witness:
  "graph_closed (gate_flow gate_and) \<and> acyclic (set (edge_pairs (gate_flow gate_and))) \<and>
   (\<exists>nd. newNodeData (gate_flow gate_and) = Some (Inr nd) \<and>
     (\<forall>k \<in> node_ids (gate_flow gate_and). \<exists>m. map_of nd k = Some m \<and>
        ((\<forall>a. (a, k) \<notin> set (edge_pairs (gate_flow gate_and))) \<longrightarrow> depth m = 0)) \<and>
     (\<forall>(u, v) \<in> set (edge_pairs (gate_flow gate_and)).
        \<exists>mu mv. map_of nd u = Some mu \<and> map_of nd v = Some mv \<and> depth mu + 1 \<le> depth mv))"
  using newNodeData_depths[OF gate_flow_closed gate_flow_acyclic, of gate_and]
    gate_flow_closed[of gate_and] gate_flow_acyclic[of gate_and]
  by blast

end
